theory Spec2Isabelle
  imports Main
begin

section \<open>Common values\<close>

text \<open>
  The exceptions of the Python source that the modelled functions can raise.
  \<open>TooManyRequestFailures\<close> is the crawler's own exception class; the others are
  raised by the interpreter (\<open>pulls[0]\<close> on an empty list, \<open>{}[0]\<close>,
  \<open>r.headers['Link']\<close> without that header, \<open>{}.headers\<close>, unpacking \<open>None\<close>,
  \<open>time.sleep\<close> of a negative number, \<open>open\<close> of a file that does not exist).
\<close>

datatype py_error =
  IndexError | KeyError | TypeError | ValueError | AttributeError | FileNotFoundError |
  TooManyRequestFailures

text \<open>
  What a caller of \<open>_get\<close> or \<open>_get_json\<close> sees: the pair \<open>(r, True)\<close>, the pair
  \<open>({}, False)\<close> of a 404, or an exception that leaves the call.
\<close>

datatype 'a fetched = Fetched 'a | NotOk | Raised py_error

section \<open>Boundary resolver (crawler.py, \<open>_find_start_page\<close> and \<open>_find_end_page\<close>)\<close>

text \<open>
  \<open>round((start + end)/2)\<close>: Python 3 divides the integers as floats and \<open>round\<close>
  rounds a tie to the even neighbour. The argument here is the sum \<open>start + end\<close>;
  the float is exact for every sum below \<open>2^53\<close>.
\<close>

definition py_round_half :: "int \<Rightarrow> int" where
  "py_round_half n =
     (if even n then n div 2
      else if even (n div 2) then n div 2 else n div 2 + 1)"

text \<open>
  An item stream, as the searches see it: the page number gives the creation times
  (Unix seconds, after \<open>_iso_to_unix\<close>) of the items of that page, in the order of
  the page, as \<open>_get_json\<close> returns them.
\<close>

type_synonym stream = "int \<Rightarrow> int list fetched"

partial_function (option) find_start_page ::
  "stream \<Rightarrow> int \<Rightarrow> int \<Rightarrow> int \<Rightarrow> (py_error + int) option" where
  "find_start_page url start_date start end' =
     (let mid = py_round_half (start + end') in
      case url mid of
        Raised e \<Rightarrow> Some (Inl e)
      | NotOk \<Rightarrow> Some (Inl KeyError)
      | Fetched pulls \<Rightarrow>
          if pulls = [] then Some (Inl IndexError)
          else
            let first_date = hd pulls; last_date = last pulls in
            if start = end' then
              (if start_date > last_date then Some (Inr (mid + 1)) else Some (Inr mid))
            else if start_date < first_date then find_start_page url start_date start mid
            else if start_date > last_date then find_start_page url start_date mid end'
            else Some (Inr mid))"

partial_function (option) find_end_page ::
  "stream \<Rightarrow> int \<Rightarrow> int \<Rightarrow> int \<Rightarrow> (py_error + int) option" where
  "find_end_page url end_date start end' =
     (let mid = py_round_half (start + end') in
      case url mid of
        Raised e \<Rightarrow> Some (Inl e)
      | NotOk \<Rightarrow> Some (Inl KeyError)
      | Fetched pulls \<Rightarrow>
          if pulls = [] then Some (Inl IndexError)
          else
            let first_date = hd pulls; last_date = last pulls in
            if start = end' then
              (if end_date < first_date then Some (Inr (mid - 1)) else Some (Inr mid))
            else if end_date < first_date then find_end_page url end_date start mid
            else if end_date > last_date then find_end_page url end_date mid end'
            else Some (Inr mid))"

text \<open>A stream given by the list of its pages; a page past the last one is empty.\<close>

definition pages_stream :: "int list list \<Rightarrow> stream" where
  "pages_stream pages p =
     (if 1 \<le> p \<and> p \<le> int (length pages) then Fetched (pages ! nat (p - 1))
      else Fetched [])"

declare find_start_page.simps [code]
declare find_end_page.simps [code]

text \<open>
  The items of a page, and the streams the boundary property is about: every page from 1
  to \<open>n\<close> is fetched and non-empty, creation times ascend within a page, and the last
  item of a page is strictly older than the first item of the next page.
\<close>

definition items :: "stream \<Rightarrow> int \<Rightarrow> int list" where
  "items url p = (case url p of Fetched xs \<Rightarrow> xs | _ \<Rightarrow> [])"

definition ascending_stream :: "stream \<Rightarrow> int \<Rightarrow> bool" where
  "ascending_stream url n \<longleftrightarrow>
     (\<forall>p\<in>{1..n}. case url p of Fetched xs \<Rightarrow> xs \<noteq> [] \<and> sorted xs | _ \<Rightarrow> False) \<and>
     (\<forall>p\<in>{1..<n}. last (items url p) < hd (items url (p + 1)))"

text \<open>A page holds an item created at or after (at or before) the instant \<open>w\<close>.\<close>

definition has_item_ge :: "stream \<Rightarrow> int \<Rightarrow> int \<Rightarrow> bool" where
  "has_item_ge url w p \<longleftrightarrow> (\<exists>t\<in>set (items url p). w \<le> t)"

definition has_item_le :: "stream \<Rightarrow> int \<Rightarrow> int \<Rightarrow> bool" where
  "has_item_le url w p \<longleftrightarrow> (\<exists>t\<in>set (items url p). t \<le> w)"

text \<open>
  \<open>_get_starting_page\<close> and \<open>_get_ending_page\<close>: fetch page 1, read the number of
  the last page from the \<open>Link\<close> header of the response, search \<open>[1, last_page]\<close>.
  The response of page 1 is modelled by what the code reads of it: no \<open>Link\<close> header
  (\<open>r.headers['Link']\<close> raises KeyError), a header without a \<open>rel="last"\<close> entry
  (\<open>findall(link)[0]\<close> raises IndexError), or the last page's number. A 404 gives
  \<open>r = {}\<close>, and \<open>{}.headers\<close> raises AttributeError.
\<close>

datatype link_header = NoLink | LinkWithoutLast | LinkLast int

definition get_starting_page ::
  "link_header fetched \<Rightarrow> stream \<Rightarrow> int \<Rightarrow> (py_error + int) option" where
  "get_starting_page first_response url start_date =
     (case first_response of
        Raised e \<Rightarrow> Some (Inl e)
      | NotOk \<Rightarrow> Some (Inl AttributeError)
      | Fetched NoLink \<Rightarrow> Some (Inl KeyError)
      | Fetched LinkWithoutLast \<Rightarrow> Some (Inl IndexError)
      | Fetched (LinkLast last_page) \<Rightarrow> find_start_page url start_date 1 last_page)"

definition get_ending_page ::
  "link_header fetched \<Rightarrow> stream \<Rightarrow> int \<Rightarrow> (py_error + int) option" where
  "get_ending_page first_response url end_date =
     (case first_response of
        Raised e \<Rightarrow> Some (Inl e)
      | NotOk \<Rightarrow> Some (Inl AttributeError)
      | Fetched NoLink \<Rightarrow> Some (Inl KeyError)
      | Fetched LinkWithoutLast \<Rightarrow> Some (Inl IndexError)
      | Fetched (LinkLast last_page) \<Rightarrow> find_end_page url end_date 1 last_page)"

text \<open>
  The start of \<open>crawl\<close> (lines 171-190): how the page a stream starts at is fixed.
  The block for pulls and the block for issues are the same code on
  \<open>start_page_pulls\<close> and \<open>start_page_issues\<close>. Inside the test
  \<open>start_page < 1\<close> the assignment \<open>start_page = 1\<close> of a start date before 2015 is
  followed, outside its \<open>if\<close>, by the assignment from \<open>_get_starting_page\<close>.
  \<open>iso_2015\<close> is \<open>_iso_to_unix("2015-01-01T00:00:00Z")\<close>.
\<close>

definition iso_2015 :: int where
  "iso_2015 = 1420070400"

definition crawl_start_page ::
  "int \<Rightarrow> int \<Rightarrow> link_header fetched \<Rightarrow> stream \<Rightarrow> (py_error + int) option" where
  "crawl_start_page start_date start_page first_response url =
     (if start_page < 1 then
        (let start_page = (if start_date < iso_2015 then 1 else start_page) in
         get_starting_page first_response url start_date)
      else Some (Inr start_page))"

section \<open>Rate-limited fetcher (crawler.py, \<open>_try_to_get\<close> and \<open>_get\<close>)\<close>

text \<open>
  What \<open>_try_to_get\<close> reads of a response: the status code, the two rate-limit headers
  (absent, or the integer \<open>int()\<close> reads from them) and whether the payload is an
  error envelope (a \<open>Content-Type\<close> with \<open>json\<close> and a JSON object with the key
  \<open>message\<close>). \<open>r.ok\<close> of the requests library is false exactly for a status
  code from 400 to 599 (where \<open>raise_for_status\<close> raises).
\<close>

record response =
  status_code :: int
  ratelimit_remaining :: "int option"
  ratelimit_reset :: "int option"
  error_message :: bool

definition ok :: "response \<Rightarrow> bool" where
  "ok r \<longleftrightarrow> \<not> (400 \<le> status_code r \<and> status_code r < 600)"

text \<open>
  One call of \<open>requests.get\<close> either raises (a network error) or gives a response. The
  network is the list of the outcomes of the requests still to come, in order.
\<close>

datatype outcome = RequestException | Response response

text \<open>
  The clock (Unix seconds, as \<open>int(time.time())\<close>) and the log of the calls of
  \<open>time.sleep\<close>. A sleep moves the clock by its length.
\<close>

record world =
  now :: int
  slept :: "int list"

definition sleep :: "int \<Rightarrow> world \<Rightarrow> world" where
  "sleep secs w = w\<lparr>now := now w + secs, slept := slept w @ [secs]\<rparr>"

text \<open>
  The four values \<open>_try_to_get\<close> returns: \<open>(r, True)\<close>, \<open>({}, False)\<close>,
  \<open>(None, False)\<close> and, from the \<open>except\<close> branch and from the error-envelope branch,
  a bare \<open>None\<close> that is no pair.
\<close>

datatype try_result = Got response | Absent | Failed | BareNone

text \<open>
  The test of line 375: the remaining-quota header is present and below 1 and the reset
  header is present.
\<close>

definition rate_limited :: "response \<Rightarrow> bool" where
  "rate_limited r \<longleftrightarrow>
     (case ratelimit_remaining r of
        None \<Rightarrow> False
      | Some remaining \<Rightarrow> remaining < 1 \<and> ratelimit_reset r \<noteq> None)"

text \<open>
  \<open>_try_to_get\<close>. The result is \<open>None\<close> when the list of outcomes ends before the
  call is decided. The recursive call of the rate-limit branch stands inside the
  \<open>try\<close>; \<open>time.sleep\<close> of a negative length raises ValueError there, which the
  \<open>except\<close> branch turns into the bare \<open>None\<close>.
\<close>

fun try_to_get :: "outcome list \<Rightarrow> world \<Rightarrow> (try_result \<times> outcome list \<times> world) option" where
  "try_to_get [] w = None"
| "try_to_get (RequestException # rest) w = Some (BareNone, rest, w)"
| "try_to_get (Response r # rest) w =
     (if \<not> ok r then
        if status_code r = 404 then Some (Absent, rest, w)
        else if rate_limited r then
          (case ratelimit_reset r of
             None \<Rightarrow> Some (Failed, rest, w)
           | Some reset \<Rightarrow>
               let ratelimit_wait_secs = reset - now w + 1 in
               if ratelimit_wait_secs < 0 then Some (BareNone, rest, w)
               else try_to_get rest (sleep ratelimit_wait_secs w))
        else Some (Failed, rest, w)
      else if error_message r then Some (BareNone, rest, w)
      else Some (Got r, rest, w))"

lemma try_to_get_shorter:
  "try_to_get script w = Some (res, rest, w') \<Longrightarrow> length rest < length script"
proof (induction script w arbitrary: res rest w' rule: try_to_get.induct)
  case (1 w)
  then show ?case by simp
next
  case (2 rest0 w)
  then show ?case by simp
next
  case (3 r rest0 w)
  then show ?case
    by (fastforce simp: Let_def split: if_splits option.splits)
qed

text \<open>
  \<open>_get\<close>: the loop around \<open>_try_to_get\<close>, with the counter \<open>tries\<close> as an argument.
  \<open>r, ok = self._try_to_get(url)\<close> unpacks the returned value: a bare \<open>None\<close> raises
  TypeError. \<open>time.sleep\<close> of a negative \<open>request_retry_wait_secs\<close> raises ValueError.
\<close>

function get_loop ::
  "int \<Rightarrow> int \<Rightarrow> int \<Rightarrow> outcome list \<Rightarrow> world \<Rightarrow> (response fetched \<times> outcome list \<times> world) option" where
  "get_loop max_request_tries request_retry_wait_secs tries script w =
     (case try_to_get script w of
        None \<Rightarrow> None
      | Some (BareNone, rest, w') \<Rightarrow> Some (Raised TypeError, rest, w')
      | Some (Got r, rest, w') \<Rightarrow> Some (Fetched r, rest, w')
      | Some (Absent, rest, w') \<Rightarrow> Some (NotOk, rest, w')
      | Some (Failed, rest, w') \<Rightarrow>
          (let tries = tries + 1 in
           if tries \<ge> max_request_tries then Some (Raised TooManyRequestFailures, rest, w')
           else if request_retry_wait_secs < 0 then Some (Raised ValueError, rest, w')
           else get_loop max_request_tries request_retry_wait_secs tries rest
                  (sleep request_retry_wait_secs w')))"
  by pat_completeness auto
termination
  by (relation "measure (\<lambda>(m, rw, t, script, w). length script)")
    (auto dest: try_to_get_shorter)

definition get :: "int \<Rightarrow> int \<Rightarrow> outcome list \<Rightarrow> world \<Rightarrow> (response fetched \<times> outcome list \<times> world) option" where
  "get max_request_tries request_retry_wait_secs script w =
     get_loop max_request_tries request_retry_wait_secs 0 script w"

text \<open>
  A run of rate-limited responses, each arriving when its reset time is not more than a
  second in the past, so that the sleep until one second after the reset is not negative;
  and the world after the sleeps of such a run.
\<close>

fun rate_limited_run :: "outcome list \<Rightarrow> world \<Rightarrow> bool" where
  "rate_limited_run [] w = True"
| "rate_limited_run (RequestException # rest) w = False"
| "rate_limited_run (Response r # rest) w =
     (case ratelimit_reset r of
        None \<Rightarrow> False
      | Some reset \<Rightarrow>
          \<not> ok r \<and> status_code r \<noteq> 404 \<and> rate_limited r \<and> now w \<le> reset + 1 \<and>
          rate_limited_run rest (sleep (reset - now w + 1) w))"

fun after_run :: "outcome list \<Rightarrow> world \<Rightarrow> world" where
  "after_run [] w = w"
| "after_run (RequestException # rest) w = w"
| "after_run (Response r # rest) w =
     (case ratelimit_reset r of
        None \<Rightarrow> w
      | Some reset \<Rightarrow> after_run rest (sleep (reset - now w + 1) w))"

section \<open>Diff attribution (writer.py, \<open>_get_section_changes\<close>)\<close>

text \<open>
  Strings are lists of characters, one \<open>char\<close> for each code point; the model covers
  the code points below 256. \<open>startswith\<close> is \<open>str.startswith\<close>.
\<close>

definition startswith :: "string \<Rightarrow> string \<Rightarrow> bool" where
  "startswith s p \<longleftrightarrow> take (length p) s = p"

definition newline :: char where
  "newline = CHR 0x0A"

text \<open>
  The characters \<open>\s\<close> matches (and \<open>\S\<close> does not) among the code points below 256:
  tab to carriage return, the four separators 28 to 31, the space, NEL and the
  no-break space.
\<close>

definition is_space :: "char \<Rightarrow> bool" where
  "is_space c \<longleftrightarrow>
     (let n = (of_char c :: nat) in (9 \<le> n \<and> n \<le> 13) \<or> (28 \<le> n \<and> n \<le> 32) \<or> n = 133 \<or> n = 160)"

text \<open>
  A lazy \<open>.*?\<close> followed by a literal: the shortest run of characters other than the
  newline after which the literal stands. The result is the run and what follows the
  literal.
\<close>

fun lazy_until :: "string \<Rightarrow> string \<Rightarrow> (string \<times> string) option" where
  "lazy_until lit [] = (if lit = [] then Some ([], []) else None)"
| "lazy_until lit (c # cs) =
     (if startswith (c # cs) lit then Some ([], drop (length lit) (c # cs))
      else if c = newline then None
      else (case lazy_until lit cs of
              None \<Rightarrow> None
            | Some (x, rest) \<Rightarrow> Some (c # x, rest)))"

text \<open>
  \<open>_diff_file_pattern.match(line)\<close> for the pattern
  \<^verbatim>\<open>^diff --git a\/(?:.*?) b\/(.*?)\n$\<close>; the result is \<open>group(1)\<close>. After the
  literal start, the first \<^verbatim>\<open> b/\<close> that no newline precedes ends the lazy first
  group (when the rest of the pattern fails there, it fails after every later
  \<^verbatim>\<open> b/\<close> too, since what follows is a suffix with the same newlines). The second
  group runs to the first newline, and \<open>$\<close> accepts the end of the string or one
  last newline.
\<close>

definition diff_file_match :: "string \<Rightarrow> string option" where
  "diff_file_match line =
     (if startswith line ''diff --git a/'' then
        (case lazy_until '' b/'' (drop (length ''diff --git a/'') line) of
           None \<Rightarrow> None
         | Some (x, rest) \<Rightarrow>
             let y = takeWhile (\<lambda>c. c \<noteq> newline) rest;
                 tail = dropWhile (\<lambda>c. c \<noteq> newline) rest
             in if tail = [newline] \<or> tail = [newline, newline] then Some y else None)
      else None)"

text \<open>
  \<open>_diff_file_anchor_pattern.match(line)\<close> for the pattern
  \<^verbatim>\<open>(?:---|\+\+\+) \S*?\/(.*?)$\<close>, as a truth value: the line starts with
  \<^verbatim>\<open>--- \<close> or \<^verbatim>\<open>+++ \<close>, a slash follows with no whitespace before it, and
  after the slash there is no newline but, at most, a last one.
\<close>

definition diff_file_anchor_match :: "string \<Rightarrow> bool" where
  "diff_file_anchor_match line \<longleftrightarrow>
     (startswith line ''--- '' \<or> startswith line ''+++ '') \<and>
     (let rest = drop 4 line;
          stem = takeWhile (\<lambda>c. c \<noteq> CHR ''/'') rest;
          from_slash = dropWhile (\<lambda>c. c \<noteq> CHR ''/'') rest
      in from_slash \<noteq> [] \<and> list_all (\<lambda>c. \<not> is_space c) stem \<and>
         list_all (\<lambda>c. c \<noteq> newline) (butlast (tl from_slash)))"

definition sections :: "string list" where
  "sections =
     [''build/'', ''cli/'', ''extensions/'', ''remote/'', ''resources/'', ''scripts/'',
      ''src/'', ''test/'', ''other '']"

text \<open>One entry of \<open>pull['section_data']\<close>: the dictionary of the three counters.\<close>

record tally =
  changed_files :: int
  additions :: int
  deletions :: int

text \<open>
  \<open>next((i for (i, s) in enumerate(_sections) if filename.startswith(s)), len(_sections) - 1)\<close>
\<close>

definition section_of :: "string \<Rightarrow> nat" where
  "section_of filename =
     (case find (\<lambda>i. startswith filename (sections ! i)) [0..<length sections] of
        Some i \<Rightarrow> i
      | None \<Rightarrow> length sections - 1)"

text \<open>The local state of \<open>_get_section_changes\<close>, and one pass of its loop body.\<close>

record attribution =
  section_data :: "tally list"
  current_section :: nat
  current_filename :: string

definition initial_attribution :: attribution where
  "initial_attribution =
     \<lparr>section_data = map (\<lambda>s. \<lparr>changed_files = 0, additions = 0, deletions = 0\<rparr>) sections,
      current_section = length sections - 1,
      current_filename = []\<rparr>"

definition attribute_line :: "attribution \<Rightarrow> string \<Rightarrow> attribution" where
  "attribute_line st line =
     (case diff_file_match line of
        Some filename \<Rightarrow>
          if filename \<noteq> current_filename st then
            (let cs = section_of filename;
                 t = section_data st ! cs
             in st\<lparr>section_data := (section_data st)[cs := t\<lparr>changed_files := changed_files t + 1\<rparr>],
                   current_section := cs,
                   current_filename := filename\<rparr>)
          else st
      | None \<Rightarrow>
          if startswith line ''+'' \<and> \<not> diff_file_anchor_match line then
            (let t = section_data st ! current_section st
             in st\<lparr>section_data :=
                     (section_data st)[current_section st := t\<lparr>additions := additions t + 1\<rparr>]\<rparr>)
          else if startswith line ''-'' \<and> \<not> diff_file_anchor_match line then
            (let t = section_data st ! current_section st
             in st\<lparr>section_data :=
                     (section_data st)[current_section st := t\<lparr>deletions := deletions t + 1\<rparr>]\<rparr>)
          else st)"

definition get_section_changes :: "string list \<Rightarrow> tally list" where
  "get_section_changes diff = section_data (foldl attribute_line initial_attribution diff)"

text \<open>
  The terms of the attribution property. The files a diff introduces, in order: the
  second group of each header line. The files that count as new: a header counts when
  its file differs from the file of the header before it (from the empty name at the
  start). The lines of a diff that are not headers, each with the file of the last
  header before it. A counted addition (deletion): a line that starts with \<open>+\<close>
  (\<open>-\<close>) and does not match the anchor pattern.
\<close>

definition header_files :: "string list \<Rightarrow> string list" where
  "header_files diff = List.map_filter diff_file_match diff"

definition new_files :: "string \<Rightarrow> string list \<Rightarrow> string list" where
  "new_files current diff = tl (remdups_adj (current # header_files diff))"

fun lines_with_file :: "string \<Rightarrow> string list \<Rightarrow> (string \<times> string) list" where
  "lines_with_file f [] = []"
| "lines_with_file f (l # ls) =
     (case diff_file_match l of
        Some g \<Rightarrow> lines_with_file g ls
      | None \<Rightarrow> (f, l) # lines_with_file f ls)"

definition is_addition :: "string \<Rightarrow> bool" where
  "is_addition line \<longleftrightarrow> startswith line ''+'' \<and> \<not> diff_file_anchor_match line"

definition is_deletion :: "string \<Rightarrow> bool" where
  "is_deletion line \<longleftrightarrow> startswith line ''-'' \<and> \<not> diff_file_anchor_match line"

definition count_lines :: "(string \<Rightarrow> bool) \<Rightarrow> nat \<Rightarrow> string \<Rightarrow> string list \<Rightarrow> int" where
  "count_lines kind i current diff =
     int (length (filter (\<lambda>(f, l). section_of f = i \<and> kind l) (lines_with_file current diff)))"

definition count_files :: "nat \<Rightarrow> string \<Rightarrow> string list \<Rightarrow> int" where
  "count_files i current diff =
     int (length (filter (\<lambda>f. section_of f = i) (new_files current diff)))"

text \<open>
  A diff of two files: \<open>src/a.ts\<close> with two hunks, under the section \<open>src/\<close>, and
  \<open>README.md\<close> with one hunk, under no section.
\<close>

definition two_file_diff :: "string list" where
  "two_file_diff =
     [''diff --git a/src/a.ts b/src/a.ts'' @ [newline],
      ''index 111..222 100644'' @ [newline],
      ''--- a/src/a.ts'' @ [newline],
      ''+++ b/src/a.ts'' @ [newline],
      ''@@ -1,2 +1,3 @@'' @ [newline],
      '' keep'' @ [newline],
      ''+added one'' @ [newline],
      ''-removed one'' @ [newline],
      ''@@ -10,2 +11,3 @@'' @ [newline],
      ''+added two'' @ [newline],
      ''diff --git a/README.md b/README.md'' @ [newline],
      ''--- a/README.md'' @ [newline],
      ''+++ b/README.md'' @ [newline],
      ''@@ -1 +1,2 @@'' @ [newline],
      ''+added three'' @ [newline]]"

section \<open>Export step (writer.py, \<open>write_dataset\<close>, the body run for each pull)\<close>

text \<open>
  The fields \<open>write_dataset\<close> reads of a pull file and of an issue file: the number, the
  creation time (after \<open>_iso_to_unix\<close>), the linked issue numbers, and the totals the
  pull reports for itself (\<open>pull['changed_files']\<close>, \<open>pull['additions']\<close>,
  \<open>pull['deletions']\<close>).
\<close>

record pull_json =
  pull_number :: int
  pull_created_at :: int
  linked_issue_numbers :: "int list"
  pull_changed_files :: int
  pull_additions :: int
  pull_deletions :: int

record issue_json =
  issue_number :: int
  issue_created_at :: int

text \<open>What \<open>print\<close> is called with: a list of integers or an integer.\<close>

datatype printed = PrintedList "int list" | PrintedInt int

text \<open>
  Lines 176-180, for one attribute \<open>a\<close> of \<open>_section_attributes\<close>: the values of the
  sections are summed and compared with the pull's own total; a difference prints the
  values, their sum, the total and the pull number.
\<close>

definition check_attribute :: "(tally \<Rightarrow> int) \<Rightarrow> int \<Rightarrow> int \<Rightarrow> tally list \<Rightarrow> printed list" where
  "check_attribute a reported number data =
     (let values = map (\<lambda>i. a (data ! i)) [0..<length sections] in
      if sum_list values \<noteq> reported then
        [PrintedList values, PrintedInt (sum_list values), PrintedInt reported, PrintedInt number]
      else [])"

text \<open>
  A row of the dataset, by the columns that come from the pull's totals and tallies: the
  issue number, the pull number, the pull's own three totals, and the 27 section columns
  \<open>section_data[i][a] / 1\<close> in the order of \<open>_section_headers\<close> (attribute by
  attribute, section by section). The other issue and pull columns, and the 27 relative
  columns (floating-point quotients), are left out.
\<close>

record dataset_row =
  row_issue_number :: int
  row_pull_number :: int
  row_pull_additions :: int
  row_pull_deletions :: int
  row_pull_changed_files :: int
  row_section_columns :: "int list"

definition dataset_row :: "issue_json \<Rightarrow> pull_json \<Rightarrow> tally list \<Rightarrow> dataset_row" where
  "dataset_row issue pull data =
     \<lparr>row_issue_number = issue_number issue,
      row_pull_number = pull_number pull,
      row_pull_additions = pull_additions pull,
      row_pull_deletions = pull_deletions pull,
      row_pull_changed_files = pull_changed_files pull,
      row_section_columns =
        concat (map (\<lambda>a. map (\<lambda>i. a (data ! i)) [0..<length sections])
          [changed_files, additions, deletions])\<rparr>"

text \<open>
  Lines 185-192, the loop over the linked issues of a pull: the issue file is read (a
  file that does not exist raises FileNotFoundError), an issue outside the window is
  skipped, a row is written for every other. The result is the rows written and the
  exception that ended the loop, if one did. The row limit of lines 193-196 is left out
  (with the default \<open>limit_rows = 0\<close> it is never reached).
\<close>

fun issue_rows ::
  "int \<Rightarrow> int \<Rightarrow> (int \<Rightarrow> issue_json option) \<Rightarrow> pull_json \<Rightarrow> tally list \<Rightarrow> int list
     \<Rightarrow> dataset_row list \<times> py_error option" where
  "issue_rows start_date end_date read_json pull data [] = ([], None)"
| "issue_rows start_date end_date read_json pull data (n # ns) =
     (case read_json n of
        None \<Rightarrow> ([], Some FileNotFoundError)
      | Some issue \<Rightarrow>
          if issue_created_at issue < start_date \<or> issue_created_at issue > end_date then
            issue_rows start_date end_date read_json pull data ns
          else
            (let (rows, err) = issue_rows start_date end_date read_json pull data ns
             in (dataset_row issue pull data # rows, err)))"

text \<open>
  Lines 167-192 for one pull, given the lines of its diff file: what is printed, the rows
  written and the exception raised, if any.
\<close>

definition export_pull ::
  "int \<Rightarrow> int \<Rightarrow> (int \<Rightarrow> issue_json option) \<Rightarrow> pull_json \<Rightarrow> string list
     \<Rightarrow> printed list \<times> dataset_row list \<times> py_error option" where
  "export_pull start_date end_date read_json pull diff =
     (if pull_created_at pull < start_date \<or> pull_created_at pull > end_date then ([], [], None)
      else
        (let linked = sort (linked_issue_numbers pull);
             data = get_section_changes diff;
             out =
               check_attribute changed_files (pull_changed_files pull) (pull_number pull) data @
               check_attribute additions (pull_additions pull) (pull_number pull) data @
               check_attribute deletions (pull_deletions pull) (pull_number pull) data
         in (out, issue_rows start_date end_date read_json pull data linked)))"

section \<open>Link extractor (crawler.py, \<open>_make_linked_issues_regex\<close> and \<open>_extract_linked_issue_numbers\<close>)\<close>

text \<open>
  The character classes of the pattern among the code points below 256: \<open>\w\<close> (letters,
  digits and numeric characters of Latin-1, and the underscore), \<open>\d\<close> (the ten ASCII
  digits), and the case folding of \<open>re.IGNORECASE\<close> (the capital letters of Latin-1 onto
  their small letters).
\<close>

definition is_word :: "char \<Rightarrow> bool" where
  "is_word c \<longleftrightarrow>
     (let n = (of_char c :: nat) in
      (48 \<le> n \<and> n \<le> 57) \<or> (65 \<le> n \<and> n \<le> 90) \<or> n = 95 \<or> (97 \<le> n \<and> n \<le> 122) \<or>
      n = 170 \<or> n = 178 \<or> n = 179 \<or> n = 181 \<or> n = 185 \<or> n = 186 \<or>
      (188 \<le> n \<and> n \<le> 190) \<or> (192 \<le> n \<and> n \<le> 214) \<or> (216 \<le> n \<and> n \<le> 246) \<or>
      (248 \<le> n \<and> n \<le> 255))"

definition is_digit :: "char \<Rightarrow> bool" where
  "is_digit c \<longleftrightarrow> (let n = (of_char c :: nat) in 48 \<le> n \<and> n \<le> 57)"

definition to_lower :: "char \<Rightarrow> char" where
  "to_lower c =
     (let n = (of_char c :: nat) in
      if (65 \<le> n \<and> n \<le> 90) \<or> (192 \<le> n \<and> n \<le> 214) \<or> (216 \<le> n \<and> n \<le> 222)
      then char_of (n + 32) else c)"

text \<open>A literal of the pattern stands at the start of the text, case ignored.\<close>

definition ci_startswith :: "string \<Rightarrow> string \<Rightarrow> bool" where
  "ci_startswith s lit \<longleftrightarrow> map to_lower (take (length lit) s) = map to_lower lit"

text \<open>
  The compiled pattern, given by the two names embedded in it. \<open>_make_linked_issues_regex\<close>
  escapes the dots of both names and formats them into the template; for names made of
  the characters GitHub allows (letters, digits, \<open>-\<close>, \<open>_\<close> and \<open>.\<close>) the pattern then
  matches each name as literal text, case ignored.
\<close>

datatype linked_issues_regex = Regex string string



text \<open>The alternatives of the two groups of the template, in the order of the pattern.\<close>

definition closing_keywords :: "string list" where
  "closing_keywords =
     [''close'', ''closes'', ''closed'', ''fix'', ''fixes'', ''fixed'',
      ''resolve'', ''resolves'', ''resolved'']"

fun reference_forms :: "linked_issues_regex \<Rightarrow> string list" where
  "reference_forms (Regex owner repo) =
     [''https://github.com/'' @ owner @ ''/'' @ repo @ ''/issues/'',
      owner @ ''/'' @ repo @ ''#'',
      ''#'']"

text \<open>The first alternative, in order, with which the rest of the pattern matches.\<close>

fun first_some :: "('a \<Rightarrow> 'b option) \<Rightarrow> 'a list \<Rightarrow> 'b option" where
  "first_some f [] = None"
| "first_some f (x # xs) = (case f x of Some y \<Rightarrow> Some y | None \<Rightarrow> first_some f xs)"

text \<open>
  \<^verbatim>\<open>(\d+)\b\<close> at the start of the text: the digits and the text after them. The greedy
  group takes every digit; a shorter run would end between two digits, where \<open>\b\<close>
  fails.
\<close>

definition match_number :: "string \<Rightarrow> (string \<times> string) option" where
  "match_number s =
     (let digits = takeWhile is_digit s; rest = dropWhile is_digit s in
      if digits \<noteq> [] \<and> (rest = [] \<or> \<not> is_word (hd rest)) then Some (digits, rest) else None)"

text \<open>One of the three reference forms, then the number.\<close>

definition match_reference :: "linked_issues_regex \<Rightarrow> string \<Rightarrow> (string \<times> string) option" where
  "match_reference regex s =
     first_some (\<lambda>form. if ci_startswith s form then match_number (drop (length form) s) else None)
       (reference_forms regex)"

text \<open>
  \<^verbatim>\<open>\s+\<close> and what follows it: the greedy run of whitespace, given back one character
  at a time down to a single one.
\<close>

definition match_space_reference :: "linked_issues_regex \<Rightarrow> string \<Rightarrow> (string \<times> string) option" where
  "match_space_reference regex s =
     first_some (\<lambda>n. match_reference regex (drop n s))
       (rev [1..<Suc (length (takeWhile is_space s))])"

text \<open>
  The whole pattern at one position of the text; \<open>prev\<close> is the character before the
  position, if there is one. \<open>\b\<close> asks that exactly one of the characters before and
  at the position is a word character. The result is the text of the group and the text
  after the match.
\<close>

definition match_here ::
  "linked_issues_regex \<Rightarrow> char option \<Rightarrow> string \<Rightarrow> (string \<times> string) option" where
  "match_here regex prev s =
     (if (case prev of None \<Rightarrow> False | Some c \<Rightarrow> is_word c) \<noteq> (s \<noteq> [] \<and> is_word (hd s)) then
        first_some
          (\<lambda>keyword. if ci_startswith s keyword
                      then match_space_reference regex (drop (length keyword) s) else None)
          closing_keywords
      else None)"

text \<open>
  \<open>regex.findall(text)\<close>: the positions are tried from left to right; after a match the
  search goes on where the match ended (\<open>skip\<close> counts the characters of the match
  still to pass).
\<close>

fun findall_from :: "linked_issues_regex \<Rightarrow> char option \<Rightarrow> nat \<Rightarrow> string \<Rightarrow> string list" where
  "findall_from regex prev skip [] = []"
| "findall_from regex prev skip (c # cs) =
     (if skip > 0 then findall_from regex (Some c) (skip - 1) cs
      else (case match_here regex prev (c # cs) of
              Some (digits, rest) \<Rightarrow>
                digits # findall_from regex (Some c) (length (c # cs) - length rest - 1) cs
            | None \<Rightarrow> findall_from regex (Some c) 0 cs))"

definition findall :: "linked_issues_regex \<Rightarrow> string \<Rightarrow> string list" where
  "findall regex text = findall_from regex None 0 text"

text \<open>\<open>int(n)\<close> on a string of ASCII digits.\<close>

definition py_int :: "string \<Rightarrow> int" where
  "py_int digits = foldl (\<lambda>a c. 10 * a + (int (of_char c) - 48)) 0 digits"

definition extract_linked_issue_numbers :: "string option \<Rightarrow> linked_issues_regex \<Rightarrow> int list" where
  "extract_linked_issue_numbers pull_body linked_issues_regex =
     (case pull_body of
        None \<Rightarrow> []
      | Some text \<Rightarrow> map py_int (findall linked_issues_regex text))"




text \<open>
  The pattern tried at position \<open>i\<close> of a body: the character before the position, if
  there is one, and the text from the position on.
\<close>

definition match_at :: "linked_issues_regex \<Rightarrow> string \<Rightarrow> nat \<Rightarrow> (string \<times> string) option" where
  "match_at regex body i =
     match_here regex (if i = 0 then None else Some (body ! (i - 1))) (drop i body)"

text \<open>
  A reference of a body in the words of the specification (4.4), for comparison with
  what the compiled pattern finds: at position \<open>i\<close> stands a closing keyword of the
  vocabulary \<open>close(s|d)\<close>, \<open>fix(es|ed)\<close>, \<open>resolve(s|d)\<close> in any case, then
  whitespace, then one of the three reference forms (the URL of an issue of the
  repository, \<open>owner/repo#\<close>, or a bare \<open>#\<close>) in any case, then the digits of the
  number; a word boundary stands before the keyword and after the digits.
\<close>

definition closing_reference :: "string \<Rightarrow> string \<Rightarrow> string \<Rightarrow> nat \<Rightarrow> string \<Rightarrow> bool" where
  "closing_reference owner repo body i digits \<longleftrightarrow>
     (\<exists>before keyword spaces form rest.
        body = before @ keyword @ spaces @ form @ digits @ rest \<and> length before = i \<and>
        (before = [] \<or> \<not> is_word (last before)) \<and>
        map to_lower keyword \<in>
          {''close'', ''closes'', ''closed'', ''fix'', ''fixes'', ''fixed'',
           ''resolve'', ''resolves'', ''resolved''} \<and>
        spaces \<noteq> [] \<and> list_all is_space spaces \<and>
        map to_lower form \<in>
          {map to_lower (''https://github.com/'' @ owner @ ''/'' @ repo @ ''/issues/''),
           map to_lower (owner @ ''/'' @ repo @ ''#''),
           ''#''} \<and>
        digits \<noteq> [] \<and> list_all is_digit digits \<and>
        (rest = [] \<or> \<not> is_word (hd rest)))"

section \<open>Crawl engine (crawler.py, \<open>crawl\<close>, the two page loops)\<close>

text \<open>
  What the loops read of the JSON objects: of an item of a page of pulls its number, its
  creation time (after \<open>_iso_to_unix\<close>) and its body (\<open>p.get('body')\<close>, possibly
  absent); of an item of a page of issues its number and creation time; of the detail
  object of a pull its \<open>diff_url\<close>. The rest of a detail object, and an issue object
  as a whole, are opaque text.
\<close>

record listed_pull =
  p_number :: int
  p_created_at :: int
  p_body :: "string option"

record listed_issue =
  i_number :: int
  i_created_at :: int

record pull_detail =
  diff_url :: string
  detail_fields :: string

text \<open>
  The requests the crawl makes, and the files it writes: \<open>pulls-page-N.json\<close>,
  \<open>pull-N.diff\<close>, \<open>pull-N.json\<close> (the detail object with the list stored under
  \<open>linked_issue_numbers\<close>) and \<open>issue-N.json\<close>.
\<close>

datatype request =
  PullsPage int | PullDetail int | Diff string | IssueDetail int | IssuesPage int

datatype saved_file =
  PullsPageFile int "listed_pull list"
| DiffFile int string
| PullFile int pull_detail "int list"
| IssueFile int string

text \<open>
  The service, as \<open>_get\<close> and \<open>_get_json\<close> answer for each URL (the answer depends on
  the URL only), and the interrupt key: \<open>sigint p\<close> says that the user presses it
  while page \<open>p\<close> is being fetched, which sets \<open>self._interrupted\<close>.
\<close>

record remote =
  get_pulls_page :: "int \<Rightarrow> listed_pull list fetched"
  get_pull :: "int \<Rightarrow> pull_detail fetched"
  get_diff :: "string \<Rightarrow> string fetched"
  get_issue :: "int \<Rightarrow> string fetched"
  get_issues_page :: "int \<Rightarrow> listed_issue list fetched"
  sigint :: "int \<Rightarrow> bool"

text \<open>The attributes of the crawler the loops read, with the compiled pattern.\<close>

record config =
  per_page :: int
  save_pull_pages :: bool
  max_issue_number :: int
  start_date :: int
  end_date :: int
  linked_issues_regex :: linked_issues_regex

text \<open>
  The local variables of \<open>crawl\<close> and the flag \<open>self._interrupted\<close>, with the log of
  the requests made and of the files written.
\<close>

record crawl_state =
  page :: int
  num_issues :: int
  num_pulls :: int
  list_issues :: "int set"
  interrupted :: bool
  requested :: "request list"
  saved :: "saved_file list"

text \<open>
  Lines 246-252: the linked issues of a pull are fetched and saved. The second component
  of the result is the exception that left the loop, if one did.
\<close>

fun save_linked_issues :: "remote \<Rightarrow> int list \<Rightarrow> crawl_state \<Rightarrow> crawl_state \<times> py_error option" where
  "save_linked_issues rem [] st = (st, None)"
| "save_linked_issues rem (n # rest) st =
     (let issue_number = n;
          st1 = st\<lparr>requested := requested st @ [IssueDetail issue_number]\<rparr>
      in case get_issue rem issue_number of
           Raised e \<Rightarrow> (st1, Some e)
         | NotOk \<Rightarrow> save_linked_issues rem rest st1
         | Fetched issue \<Rightarrow>
             save_linked_issues rem rest
               (st1\<lparr>saved := saved st1 @ [IssueFile issue_number issue],
                     num_issues := num_issues st1 + 1,
                     list_issues := insert issue_number (list_issues st1)\<rparr>))"

text \<open>Lines 231-255: the loop over the pulls of a page.\<close>

fun process_pulls ::
  "config \<Rightarrow> remote \<Rightarrow> listed_pull list \<Rightarrow> crawl_state \<Rightarrow> crawl_state \<times> py_error option" where
  "process_pulls cfg rem [] st = (st, None)"
| "process_pulls cfg rem (p # rest) st =
     (if p_created_at p < start_date cfg \<or> p_created_at p > end_date cfg then
        process_pulls cfg rem rest st
      else
        (let linked_issue_numbers =
               extract_linked_issue_numbers (p_body p) (linked_issues_regex cfg);
             pull_number = p_number p;
             st1 = st\<lparr>requested := requested st @ [PullDetail pull_number]\<rparr>
         in case get_pull rem pull_number of
              Raised e \<Rightarrow> (st1, Some e)
            | NotOk \<Rightarrow> process_pulls cfg rem rest st1
            | Fetched pull \<Rightarrow>
                (let st2 = st1\<lparr>requested := requested st1 @ [Diff (diff_url pull)]\<rparr> in
                 case get_diff rem (diff_url pull) of
                   Raised e \<Rightarrow> (st2, Some e)
                 | NotOk \<Rightarrow> process_pulls cfg rem rest st2
                 | Fetched diff \<Rightarrow>
                     (let st3 = st2\<lparr>saved := saved st2 @
                            [DiffFile pull_number diff,
                             PullFile pull_number pull linked_issue_numbers]\<rparr>
                      in case save_linked_issues rem linked_issue_numbers st3 of
                           (st4, Some e) \<Rightarrow> (st4, Some e)
                         | (st4, None) \<Rightarrow>
                             (let st5 = st4\<lparr>num_pulls := num_pulls st4 + 1\<rparr> in
                              if max_issue_number cfg > 0 \<and>
                                 num_issues st5 \<ge> max_issue_number cfg
                              then (st5, None)
                              else process_pulls cfg rem rest st5)))))"

text \<open>Lines 274-284: the loop over the issues of a page.\<close>

fun process_issues ::
  "config \<Rightarrow> remote \<Rightarrow> listed_issue list \<Rightarrow> crawl_state \<Rightarrow> crawl_state \<times> py_error option" where
  "process_issues cfg rem [] st = (st, None)"
| "process_issues cfg rem (i # rest) st =
     (let issue_number = i_number i in
      if issue_number \<in> list_issues st \<or> i_created_at i < start_date cfg \<or>
         i_created_at i > end_date cfg
      then process_issues cfg rem rest st
      else
        (let st1 = st\<lparr>requested := requested st @ [IssueDetail issue_number]\<rparr> in
         case get_issue rem issue_number of
           Raised e \<Rightarrow> (st1, Some e)
         | NotOk \<Rightarrow> process_issues cfg rem rest st1
         | Fetched issue \<Rightarrow>
             (let st2 = st1\<lparr>saved := saved st1 @ [IssueFile issue_number issue],
                             num_issues := num_issues st1 + 1\<rparr>
              in if max_issue_number cfg > 0 \<and> num_issues st2 \<ge> max_issue_number cfg
                 then (st2, None)
                 else process_issues cfg rem rest st2)))"

text \<open>
  How a page loop is left: its condition is false, \<open>break\<close>, \<open>return\<close>, or an
  exception.
\<close>

datatype loop_exit = ConditionFalse | Break | Return | Exception py_error

text \<open>
  Lines 225-264, the loop over the pages of pulls, from the state it is entered with.
  A page whose fetch is not ok is fetched again (\<open>continue\<close> with the same page). The
  value \<open>None\<close> is a loop that does not end.
\<close>

partial_function (option) pulls_loop ::
  "config \<Rightarrow> remote \<Rightarrow> int \<Rightarrow> crawl_state \<Rightarrow> (crawl_state \<times> loop_exit) option" where
  "pulls_loop cfg rem end_page_pulls st =
     (if \<not> (\<not> interrupted st \<and>
             \<not> (max_issue_number cfg > 0 \<and> num_issues st \<ge> max_issue_number cfg) \<and>
             \<not> (end_page_pulls > 0 \<and> page st > end_page_pulls))
      then Some (st, ConditionFalse)
      else
        (let st1 = st\<lparr>requested := requested st @ [PullsPage (page st)],
                        interrupted := interrupted st \<or> sigint rem (page st)\<rparr>
         in case get_pulls_page rem (page st) of
              Raised e \<Rightarrow> Some (st1, Exception e)
            | NotOk \<Rightarrow> pulls_loop cfg rem end_page_pulls st1
            | Fetched pulls \<Rightarrow>
                (let st2 = (if save_pull_pages cfg
                            then st1\<lparr>saved := saved st1 @ [PullsPageFile (page st1) pulls]\<rparr>
                            else st1)
                 in case process_pulls cfg rem pulls st2 of
                      (st3, Some e) \<Rightarrow> Some (st3, Exception e)
                    | (st3, None) \<Rightarrow>
                        if int (length pulls) < per_page cfg \<or>
                           (max_issue_number cfg > 0 \<and> num_issues st3 \<ge> max_issue_number cfg)
                        then (if interrupted st3 then Some (st3, Return) else Some (st3, Break))
                        else pulls_loop cfg rem end_page_pulls (st3\<lparr>page := page st3 + 1\<rparr>))))"

text \<open>Lines 270-293, the loop over the pages of issues.\<close>

partial_function (option) issues_loop ::
  "config \<Rightarrow> remote \<Rightarrow> int \<Rightarrow> crawl_state \<Rightarrow> (crawl_state \<times> loop_exit) option" where
  "issues_loop cfg rem end_page_issues st =
     (if \<not> (\<not> interrupted st \<and>
             \<not> (max_issue_number cfg > 0 \<and> num_issues st \<ge> max_issue_number cfg) \<and>
             \<not> (end_page_issues > 0 \<and> page st > end_page_issues))
      then Some (st, ConditionFalse)
      else
        (let st1 = st\<lparr>requested := requested st @ [IssuesPage (page st)],
                        interrupted := interrupted st \<or> sigint rem (page st)\<rparr>
         in case get_issues_page rem (page st) of
              Raised e \<Rightarrow> Some (st1, Exception e)
            | NotOk \<Rightarrow> issues_loop cfg rem end_page_issues st1
            | Fetched issues \<Rightarrow>
                (case process_issues cfg rem issues st1 of
                   (st3, Some e) \<Rightarrow> Some (st3, Exception e)
                 | (st3, None) \<Rightarrow>
                     if int (length issues) < per_page cfg \<or>
                        (max_issue_number cfg > 0 \<and> num_issues st3 \<ge> max_issue_number cfg)
                     then (if interrupted st3 then Some (st3, Return) else Some (st3, Break))
                     else issues_loop cfg rem end_page_issues (st3\<lparr>page := page st3 + 1\<rparr>))))"

declare pulls_loop.simps [code]
declare issues_loop.simps [code]

text \<open>The requests of pages among the requests made.\<close>

fun is_page_request :: "request \<Rightarrow> bool" where
  "is_page_request (PullsPage p) = True"
| "is_page_request (IssuesPage p) = True"
| "is_page_request r = False"

definition pages_requested :: "crawl_state \<Rightarrow> request list" where
  "pages_requested st = filter is_page_request (requested st)"

text \<open>No fetch of a detail object, of a diff or of an issue raises an exception.\<close>

definition never_raises :: "remote \<Rightarrow> bool" where
  "never_raises rem \<longleftrightarrow>
     (\<forall>n e. get_pull rem n \<noteq> Raised e) \<and> (\<forall>u e. get_diff rem u \<noteq> Raised e) \<and>
     (\<forall>n e. get_issue rem n \<noteq> Raised e)"

text \<open>
  A service without failures and a run without interrupt: every page before the last
  holds \<open>n\<close> pulls created at time 150 with an empty body, the last page holds \<open>k\<close> of
  them, and every detail object, diff and issue is fetched.
\<close>

definition full_remote :: "int \<Rightarrow> nat \<Rightarrow> nat \<Rightarrow> remote" where
  "full_remote last_page n k =
     \<lparr>get_pulls_page = (\<lambda>p. Fetched (map (\<lambda>j. \<lparr>p_number = p * 1000 + int j, p_created_at = 150,
                                                 p_body = None\<rparr>)
                                        [0..<(if p < last_page then n else k)])),
      get_pull = (\<lambda>n. Fetched \<lparr>diff_url = ''diff'', detail_fields = ''{}''\<rparr>),
      get_diff = (\<lambda>u. Fetched ''''),
      get_issue = (\<lambda>n. Fetched ''{}''),
      get_issues_page = (\<lambda>p. Fetched (map (\<lambda>j. \<lparr>i_number = p * 1000 + int j, i_created_at = 150\<rparr>)
                                        [0..<(if p < last_page then n else k)])),
      sigint = (\<lambda>p. False)\<rparr>"

section \<open>Boundary resolver: what the searches return\<close>

lemma py_round_half_same: "py_round_half (s + s) = s"
  by (simp add: py_round_half_def)

lemma py_round_half_bounds: "s < e \<Longrightarrow> s \<le> py_round_half (s + e) \<and> py_round_half (s + e) \<le> e"
  unfolding py_round_half_def by presburger

lemma ascending_page:
  assumes "ascending_stream url n" "1 \<le> p" "p \<le> n"
  shows "url p = Fetched (items url p) \<and> items url p \<noteq> [] \<and> sorted (items url p)"
proof -
  from assms have "case url p of Fetched xs \<Rightarrow> xs \<noteq> [] \<and> sorted xs | _ \<Rightarrow> False"
    by (simp add: ascending_stream_def)
  then show ?thesis by (cases "url p") (simp_all add: items_def)
qed

lemma ascending_hd_le_last:
  assumes "ascending_stream url n" "1 \<le> p" "p \<le> n"
  shows "hd (items url p) \<le> last (items url p)"
proof -
  from ascending_page[OF assms] have ne: "items url p \<noteq> []" and so: "sorted (items url p)" by simp_all
  then show ?thesis
    by (metis last_in_set list.collapse order_refl set_ConsD sorted_simps(2))
qed

lemma ascending_next:
  assumes "ascending_stream url n" "1 \<le> p" "p < n"
  shows "last (items url p) < hd (items url (p + 1))"
  using assms by (simp add: ascending_stream_def)

lemma find_start_page_partial:
  assumes asc: "ascending_stream url n"
    and res: "find_start_page url w s e = Some r"
    and bounds: "1 \<le> s" "s \<le> e" "e \<le> n"
  shows "\<exists>p. r = Inr p \<and> s \<le> p \<and> p \<le> e + 1 \<and>
           (p \<le> e \<longrightarrow> w \<le> last (items url p)) \<and>
           (s < p \<longrightarrow> last (items url (p - 1)) < w)"
proof -
  let ?P = "\<lambda>url' w' s e r. url' = url \<longrightarrow> w' = w \<longrightarrow> 1 \<le> s \<longrightarrow> s \<le> e \<longrightarrow> e \<le> n \<longrightarrow>
     (\<exists>p. r = Inr p \<and> s \<le> p \<and> p \<le> e + 1 \<and>
           (p \<le> e \<longrightarrow> w \<le> last (items url p)) \<and>
           (s < p \<longrightarrow> last (items url (p - 1)) < w))"
  have "?P url w s e r"
  proof (rule find_start_page.raw_induct [where P = ?P, OF _ res])
    fix f :: "stream \<Rightarrow> int \<Rightarrow> int \<Rightarrow> int \<Rightarrow> (py_error + int) option"
    fix url' :: stream and w' s e :: int and r :: "py_error + int"
    assume IH: "\<And>url' w' s e r. f url' w' s e = Some r \<Longrightarrow> ?P url' w' s e r"
    assume body: "(let mid = py_round_half (s + e) in
      case url' mid of
        Fetched pulls \<Rightarrow>
          if pulls = [] then Some (Inl IndexError)
          else
            let first_date = hd pulls; last_date = last pulls in
            if s = e then
              (if w' > last_date then Some (Inr (mid + 1)) else Some (Inr mid))
            else if w' < first_date then f url' w' s mid
            else if w' > last_date then f url' w' mid e
            else Some (Inr mid)
      | NotOk \<Rightarrow> Some (Inl KeyError)
      | Raised e \<Rightarrow> Some (Inl e)) = Some r"
    show "?P url' w' s e r"
    proof (intro impI)
      assume eqs: "url' = url" "w' = w" and b: "1 \<le> s" "s \<le> e" "e \<le> n"
      define mid where "mid = py_round_half (s + e)"
      have midb: "s \<le> mid" "mid \<le> e"
        using b py_round_half_bounds[of s e] py_round_half_same[of s]
        by (cases "s = e"; simp add: mid_def)+
      define xs where "xs = items url mid"
      have pg: "url mid = Fetched xs" "xs \<noteq> []"
        using ascending_page[OF asc, of mid] midb b by (simp_all add: xs_def)
      have hl: "hd xs \<le> last xs"
        using ascending_hd_le_last[OF asc, of mid] midb b by (simp add: xs_def)
      have prev: "s < mid \<Longrightarrow> last (items url (mid - 1)) < hd xs"
        using ascending_next[OF asc, of "mid - 1"] midb b by (simp add: xs_def)
      from body[unfolded eqs] have body': "(if s = e then
              (if w > last xs then Some (Inr (mid + 1)) else Some (Inr mid))
            else if w < hd xs then f url w s mid
            else if w > last xs then f url w mid e
            else Some (Inr mid)) = Some r"
        using pg by (simp add: mid_def[symmetric] Let_def)
      consider (collapse) "s = e" | (left) "s \<noteq> e" "w < hd xs" | (right) "s \<noteq> e" "\<not> w < hd xs" "last xs < w"
        | (hit) "s \<noteq> e" "\<not> w < hd xs" "\<not> last xs < w" by blast
      then show "\<exists>p. r = Inr p \<and> s \<le> p \<and> p \<le> e + 1 \<and>
           (p \<le> e \<longrightarrow> w \<le> last (items url p)) \<and>
           (s < p \<longrightarrow> last (items url (p - 1)) < w)"
      proof cases
        case collapse
        then have "mid = s" using midb by simp
        with collapse body' show ?thesis
          by (auto simp: xs_def split: if_splits)
      next
        case left
        with body' have "f url w s mid = Some r" by simp
        from IH[OF this] b midb obtain p where p: "r = Inr p" "s \<le> p" "p \<le> mid + 1"
          "p \<le> mid \<longrightarrow> w \<le> last (items url p)" "s < p \<longrightarrow> last (items url (p - 1)) < w"
          by auto
        have "p \<noteq> mid + 1"
        proof
          assume "p = mid + 1"
          with p(5) midb have "last xs < w" by (simp add: xs_def)
          with left hl show False by simp
        qed
        with p midb show ?thesis by auto
      next
        case right
        with body' have "f url w mid e = Some r" by simp
        from IH[OF this] b midb obtain p where p: "r = Inr p" "mid \<le> p" "p \<le> e + 1"
          "p \<le> e \<longrightarrow> w \<le> last (items url p)" "mid < p \<longrightarrow> last (items url (p - 1)) < w"
          by auto
        have "p \<noteq> mid"
        proof
          assume "p = mid"
          with p(4) midb have "w \<le> last xs" by (simp add: xs_def)
          with right show False by simp
        qed
        with p midb show ?thesis by auto
      next
        case hit
        with body' have "r = Inr mid" by simp
        with hit midb prev show ?thesis by (auto simp: xs_def)
      qed
    qed
  qed
  with bounds show ?thesis by simp
qed


lemma find_end_page_partial:
  assumes asc: "ascending_stream url n"
    and res: "find_end_page url w s e = Some r"
    and bounds: "1 \<le> s" "s \<le> e" "e \<le> n"
  shows "\<exists>p. r = Inr p \<and> s - 1 \<le> p \<and> p \<le> e \<and>
           (s \<le> p \<longrightarrow> hd (items url p) \<le> w) \<and>
           (p < e \<longrightarrow> w < hd (items url (p + 1)))"
proof -
  let ?P = "\<lambda>url' w' s e r. url' = url \<longrightarrow> w' = w \<longrightarrow> 1 \<le> s \<longrightarrow> s \<le> e \<longrightarrow> e \<le> n \<longrightarrow>
     (\<exists>p. r = Inr p \<and> s - 1 \<le> p \<and> p \<le> e \<and>
           (s \<le> p \<longrightarrow> hd (items url p) \<le> w) \<and>
           (p < e \<longrightarrow> w < hd (items url (p + 1))))"
  have "?P url w s e r"
  proof (rule find_end_page.raw_induct [where P = ?P, OF _ res])
    fix f :: "stream \<Rightarrow> int \<Rightarrow> int \<Rightarrow> int \<Rightarrow> (py_error + int) option"
    fix url' :: stream and w' s e :: int and r :: "py_error + int"
    assume IH: "\<And>url' w' s e r. f url' w' s e = Some r \<Longrightarrow> ?P url' w' s e r"
    assume body: "(let mid = py_round_half (s + e) in
      case url' mid of
        Fetched pulls \<Rightarrow>
          if pulls = [] then Some (Inl IndexError)
          else
            let first_date = hd pulls; last_date = last pulls in
            if s = e then
              (if w' < first_date then Some (Inr (mid - 1)) else Some (Inr mid))
            else if w' < first_date then f url' w' s mid
            else if w' > last_date then f url' w' mid e
            else Some (Inr mid)
      | NotOk \<Rightarrow> Some (Inl KeyError)
      | Raised e \<Rightarrow> Some (Inl e)) = Some r"
    show "?P url' w' s e r"
    proof (intro impI)
      assume eqs: "url' = url" "w' = w" and b: "1 \<le> s" "s \<le> e" "e \<le> n"
      define mid where "mid = py_round_half (s + e)"
      have midb: "s \<le> mid" "mid \<le> e"
        using b py_round_half_bounds[of s e] py_round_half_same[of s]
        by (cases "s = e"; simp add: mid_def)+
      define xs where "xs = items url mid"
      have pg: "url mid = Fetched xs" "xs \<noteq> []"
        using ascending_page[OF asc, of mid] midb b by (simp_all add: xs_def)
      have hl: "hd xs \<le> last xs"
        using ascending_hd_le_last[OF asc, of mid] midb b by (simp add: xs_def)
      have nxt: "mid < e \<Longrightarrow> last xs < hd (items url (mid + 1))"
        using ascending_next[OF asc, of mid] midb b by (simp add: xs_def)
      from body[unfolded eqs] have body': "(if s = e then
              (if w < hd xs then Some (Inr (mid - 1)) else Some (Inr mid))
            else if w < hd xs then f url w s mid
            else if w > last xs then f url w mid e
            else Some (Inr mid)) = Some r"
        using pg by (simp add: mid_def[symmetric] Let_def)
      consider (collapse) "s = e" | (left) "s \<noteq> e" "w < hd xs" | (right) "s \<noteq> e" "\<not> w < hd xs" "last xs < w"
        | (hit) "s \<noteq> e" "\<not> w < hd xs" "\<not> last xs < w" by blast
      then show "\<exists>p. r = Inr p \<and> s - 1 \<le> p \<and> p \<le> e \<and>
           (s \<le> p \<longrightarrow> hd (items url p) \<le> w) \<and>
           (p < e \<longrightarrow> w < hd (items url (p + 1)))"
      proof cases
        case collapse
        then have "mid = s" using midb by simp
        with collapse body' show ?thesis
          by (auto simp: xs_def split: if_splits)
      next
        case left
        with body' have "f url w s mid = Some r" by simp
        from IH[OF this] b midb obtain p where p: "r = Inr p" "s - 1 \<le> p" "p \<le> mid"
          "s \<le> p \<longrightarrow> hd (items url p) \<le> w" "p < mid \<longrightarrow> w < hd (items url (p + 1))"
          by auto
        have "p \<noteq> mid"
        proof
          assume "p = mid"
          with p(4) midb have "hd xs \<le> w" by (simp add: xs_def)
          with left show False by simp
        qed
        with p midb show ?thesis by auto
      next
        case right
        with body' have "f url w mid e = Some r" by simp
        from IH[OF this] b midb obtain p where p: "r = Inr p" "mid - 1 \<le> p" "p \<le> e"
          "mid \<le> p \<longrightarrow> hd (items url p) \<le> w" "p < e \<longrightarrow> w < hd (items url (p + 1))"
          by auto
        have "p \<noteq> mid - 1"
        proof
          assume "p = mid - 1"
          with p(5) midb have "w < hd xs" by (simp add: xs_def)
          with right show False by simp
        qed
        with p midb show ?thesis by auto
      next
        case hit
        with body' have "r = Inr mid" by simp
        with hit midb nxt show ?thesis by (auto simp: xs_def)
      qed
    qed
  qed
  with bounds show ?thesis by simp
qed

lemma ascending_last_mono:
  assumes asc: "ascending_stream url n" and "1 \<le> p" "p \<le> q" "q \<le> n"
  shows "last (items url p) \<le> last (items url q)"
  using assms(3,2,4)
proof (induction q rule: int_ge_induct)
  case base
  then show ?case by simp
next
  case (step i)
  have "last (items url i) < hd (items url (i + 1))"
    using ascending_next[OF asc, of i] step by simp
  moreover have "hd (items url (i + 1)) \<le> last (items url (i + 1))"
    using ascending_hd_le_last[OF asc, of "i + 1"] step by simp
  ultimately show ?case using step by simp
qed

lemma ascending_hd_mono:
  assumes asc: "ascending_stream url n" and "1 \<le> p" "p \<le> q" "q \<le> n"
  shows "hd (items url p) \<le> hd (items url q)"
  using assms(3,2,4)
proof (induction q rule: int_ge_induct)
  case base
  then show ?case by simp
next
  case (step i)
  have "last (items url i) < hd (items url (i + 1))"
    using ascending_next[OF asc, of i] step by simp
  moreover have "hd (items url i) \<le> last (items url i)"
    using ascending_hd_le_last[OF asc, of i] step by simp
  ultimately show ?case using step by simp
qed

lemma sorted_le_last: "sorted xs \<Longrightarrow> t \<in> set xs \<Longrightarrow> t \<le> last (xs :: int list)"
  by (induction xs) (auto split: if_splits)

lemma sorted_hd_le: "sorted xs \<Longrightarrow> t \<in> set xs \<Longrightarrow> hd (xs :: int list) \<le> t"
  by (cases xs) auto

lemma has_item_ge_iff:
  assumes "ascending_stream url n" "1 \<le> p" "p \<le> n"
  shows "has_item_ge url w p \<longleftrightarrow> w \<le> last (items url p)"
  using ascending_page[OF assms] sorted_le_last[of "items url p"]
  by (fastforce simp: has_item_ge_def)

lemma has_item_le_iff:
  assumes "ascending_stream url n" "1 \<le> p" "p \<le> n"
  shows "has_item_le url w p \<longleftrightarrow> hd (items url p) \<le> w"
  using ascending_page[OF assms] sorted_hd_le[of "items url p"]
  by (fastforce simp: has_item_le_def)

lemma find_start_page_collapsed:
  assumes "ascending_stream url n" "1 \<le> k" "k \<le> n"
  shows "find_start_page url w k k = Some (Inr (if last (items url k) < w then k + 1 else k))"
  using ascending_page[OF assms]
  by (subst find_start_page.simps) (cases "url k"; simp add: py_round_half_def Let_def)

lemma find_end_page_collapsed:
  assumes "ascending_stream url n" "1 \<le> k" "k \<le> n"
  shows "find_end_page url w k k = Some (Inr (if w < hd (items url k) then k - 1 else k))"
  using ascending_page[OF assms]
  by (subst find_end_page.simps) (cases "url k"; simp add: py_round_half_def Let_def)

text \<open>
  Claim C1, as amended. On a stream with non-empty pages \<open>1..n\<close> that ascends within
  pages and strictly across pages: whenever the start search on \<open>[1, n]\<close> returns, it
  returns the smallest page holding an item created at or after the window start
  (\<open>n + 1\<close> when no page holds one); whenever the end search returns, it returns the
  largest page holding an item created at or before the window end (0 when no page
  holds one); and on a collapsed interval \<open>[k, k]\<close> both searches do return: the start
  search gives \<open>k + 1\<close> when the window start is strictly after every item of page
  \<open>k\<close> and \<open>k\<close> otherwise, the end search gives \<open>k - 1\<close> when the window end is
  strictly before every item and \<open>k\<close> otherwise.
\<close>

theorem boundary_search_result:
  assumes asc: "ascending_stream url n" and n: "1 \<le> n"
  shows "(\<forall>r. find_start_page url ws 1 n = Some r \<longrightarrow>
            (\<exists>p. r = Inr p \<and> 1 \<le> p \<and> p \<le> n + 1 \<and>
                 (p \<le> n \<longrightarrow> has_item_ge url ws p) \<and>
                 (\<forall>q\<in>{1..<p}. \<not> has_item_ge url ws q))) \<and>
         (\<forall>r. find_end_page url we 1 n = Some r \<longrightarrow>
            (\<exists>p. r = Inr p \<and> 0 \<le> p \<and> p \<le> n \<and>
                 (1 \<le> p \<longrightarrow> has_item_le url we p) \<and>
                 (\<forall>q\<in>{p<..n}. \<not> has_item_le url we q))) \<and>
         (\<forall>k\<in>{1..n}.
            find_start_page url ws k k = Some (Inr (if last (items url k) < ws then k + 1 else k)) \<and>
            find_end_page url we k k = Some (Inr (if we < hd (items url k) then k - 1 else k)))"
proof (intro conjI allI impI ballI)
  fix r assume "find_start_page url ws 1 n = Some r"
  from find_start_page_partial[OF asc this] n obtain p where p: "r = Inr p" "1 \<le> p" "p \<le> n + 1"
    "p \<le> n \<longrightarrow> ws \<le> last (items url p)" "1 < p \<longrightarrow> last (items url (p - 1)) < ws"
    by auto
  have "\<not> has_item_ge url ws q" if "q \<in> {1..<p}" for q
  proof -
    from that p have q: "1 \<le> q" "q \<le> p - 1" "p - 1 \<le> n" "1 < p" by auto
    from ascending_last_mono[OF asc q(1,2,3)] p(5) q(4) have "last (items url q) < ws" by simp
    then show ?thesis using has_item_ge_iff[OF asc, of q ws] q by simp
  qed
  moreover have "p \<le> n \<longrightarrow> has_item_ge url ws p"
    using p has_item_ge_iff[OF asc, of p ws] by simp
  ultimately show "\<exists>p. r = Inr p \<and> 1 \<le> p \<and> p \<le> n + 1 \<and>
                 (p \<le> n \<longrightarrow> has_item_ge url ws p) \<and>
                 (\<forall>q\<in>{1..<p}. \<not> has_item_ge url ws q)"
    using p by blast
next
  fix r assume "find_end_page url we 1 n = Some r"
  from find_end_page_partial[OF asc this] n obtain p where p: "r = Inr p" "0 \<le> p" "p \<le> n"
    "1 \<le> p \<longrightarrow> hd (items url p) \<le> we" "p < n \<longrightarrow> we < hd (items url (p + 1))"
    by auto
  have "\<not> has_item_le url we q" if "q \<in> {p<..n}" for q
  proof -
    from that p have q: "1 \<le> p + 1" "p + 1 \<le> q" "q \<le> n" "p < n" by auto
    from ascending_hd_mono[OF asc q(1,2,3)] p(5) q(4) have "we < hd (items url q)" by simp
    then show ?thesis using has_item_le_iff[OF asc, of q we] q by simp
  qed
  moreover have "1 \<le> p \<longrightarrow> has_item_le url we p"
    using p has_item_le_iff[OF asc, of p we] by simp
  ultimately show "\<exists>p. r = Inr p \<and> 0 \<le> p \<and> p \<le> n \<and>
                 (1 \<le> p \<longrightarrow> has_item_le url we p) \<and>
                 (\<forall>q\<in>{p<..n}. \<not> has_item_le url we q)"
    using p by blast
next
  fix k assume "k \<in> {1..n}"
  then show "find_start_page url ws k k = Some (Inr (if last (items url k) < ws then k + 1 else k))"
    using find_start_page_collapsed[OF asc, of k ws] by simp
next
  fix k assume "k \<in> {1..n}"
  then show "find_end_page url we k k = Some (Inr (if we < hd (items url k) then k - 1 else k))"
    using find_end_page_collapsed[OF asc, of k we] by simp
qed

theorem boundary_search_result_witness:
  "ascending_stream (pages_stream [[1, 2], [3, 4], [5, 6]]) 3 \<and>
   find_start_page (pages_stream [[1, 2], [3, 4], [5, 6]]) 3 1 3 = Some (Inr 2) \<and>
   has_item_ge (pages_stream [[1, 2], [3, 4], [5, 6]]) 3 2 \<and>
   \<not> has_item_ge (pages_stream [[1, 2], [3, 4], [5, 6]]) 3 1 \<and>
   find_end_page (pages_stream [[1, 2], [3, 4], [5, 6]]) 4 1 3 = Some (Inr 2) \<and>
   has_item_le (pages_stream [[1, 2], [3, 4], [5, 6]]) 4 2 \<and>
   \<not> has_item_le (pages_stream [[1, 2], [3, 4], [5, 6]]) 4 3 \<and>
   find_start_page (pages_stream [[1, 2], [3, 4], [5, 6]]) 3 1 1 = Some (Inr 2) \<and>
   find_end_page (pages_stream [[1, 2], [3, 4], [5, 6]]) 4 3 3 = Some (Inr 2)"
proof -
  let ?url = "pages_stream [[1, 2], [3, 4], [5, 6]]"
  have asc: "ascending_stream ?url 3" by code_simp
  have s: "find_start_page ?url 3 1 3 = Some (Inr 2)"
    by (simp add: find_start_page.simps pages_stream_def py_round_half_def)
  have e: "find_end_page ?url 4 1 3 = Some (Inr 2)"
    by (simp add: find_end_page.simps pages_stream_def py_round_half_def)
  have it: "items ?url 1 = [1, 2]" "items ?url 3 = [5, 6]"
    by (simp_all add: items_def pages_stream_def)
  from boundary_search_result[OF asc, of 3 4] s e it asc show ?thesis
    by auto
qed

text \<open>
  Claim C1 as stated fails where creation times tie across a page boundary. With pages
  \<open>[1, 5]\<close> and \<open>[5, 9]\<close> (ascending within and across pages) and window start 5,
  the start search on \<open>[1, 2]\<close> probes page 2, finds \<open>5 \<le> 5 \<le> 9\<close> and returns 2,
  although page 1 holds an item created at 5. With pages \<open>[0, 1]\<close>, \<open>[1, 5]\<close>,
  \<open>[5, 9]\<close> and window end 5 the end search returns 2, although page 3 holds an item
  created at 5.
\<close>

theorem boundary_search_counterexample:
  "sorted (concat [[1, 5], [5, 9 :: int]]) \<and>
   find_start_page (pages_stream [[1, 5], [5, 9]]) 5 1 2 = Some (Inr 2) \<and>
   has_item_ge (pages_stream [[1, 5], [5, 9]]) 5 1 \<and>
   find_end_page (pages_stream [[0, 1], [1, 5], [5, 9]]) 5 1 3 = Some (Inr 2) \<and>
   has_item_le (pages_stream [[0, 1], [1, 5], [5, 9]]) 5 3"
  by (simp add: find_start_page.simps find_end_page.simps pages_stream_def py_round_half_def
      has_item_ge_def has_item_le_def items_def)

subsection \<open>Where the searches do not return\<close>

text \<open>
  A call whose probe sends it back to its own interval: on \<open>[s, e]\<close> with \<open>s \<noteq> e\<close>,
  when the midpoint is \<open>e\<close> and the branch \<open>[start, mid]\<close> is taken, or the midpoint is
  \<open>s\<close> and the branch \<open>[mid, end]\<close> is taken, the recursive call has the arguments of
  the call itself, and the search has no result.
\<close>

lemma find_start_page_self_call:
  assumes pg: "url (py_round_half (s + e)) = Fetched pulls" "pulls \<noteq> []" and ne: "s \<noteq> e"
    and loop: "(w < hd pulls \<and> py_round_half (s + e) = e) \<or>
               (\<not> w < hd pulls \<and> last pulls < w \<and> py_round_half (s + e) = s)"
  shows "find_start_page url w s e = None"
proof (cases "find_start_page url w s e")
  case None
  then show ?thesis .
next
  case (Some r)
  let ?P = "\<lambda>url' w' s' e' (r :: py_error + int). \<not> (url' = url \<and> w' = w \<and> s' = s \<and> e' = e)"
  have "?P url w s e r"
  proof (rule find_start_page.raw_induct [where P = ?P, OF _ Some])
    fix f :: "stream \<Rightarrow> int \<Rightarrow> int \<Rightarrow> int \<Rightarrow> (py_error + int) option"
    fix url' :: stream and w' s' e' :: int and r :: "py_error + int"
    assume IH: "\<And>url' w' s' e' r. f url' w' s' e' = Some r \<Longrightarrow> ?P url' w' s' e' r"
    assume body: "(let mid = py_round_half (s' + e') in
      case url' mid of
        Fetched pulls \<Rightarrow>
          if pulls = [] then Some (Inl IndexError)
          else
            let first_date = hd pulls; last_date = last pulls in
            if s' = e' then
              (if w' > last_date then Some (Inr (mid + 1)) else Some (Inr mid))
            else if w' < first_date then f url' w' s' mid
            else if w' > last_date then f url' w' mid e'
            else Some (Inr mid)
      | NotOk \<Rightarrow> Some (Inl KeyError)
      | Raised e \<Rightarrow> Some (Inl e)) = Some r"
    show "?P url' w' s' e' r"
    proof
      assume a: "url' = url \<and> w' = w \<and> s' = s \<and> e' = e"
      with body pg ne loop have "f url w s e = Some r"
        by (auto simp: Let_def)
      from IH[OF this] show False by simp
    qed
  qed
  then show ?thesis by simp
qed

lemma find_end_page_self_call:
  assumes pg: "url (py_round_half (s + e)) = Fetched pulls" "pulls \<noteq> []" and ne: "s \<noteq> e"
    and loop: "(w < hd pulls \<and> py_round_half (s + e) = e) \<or>
               (\<not> w < hd pulls \<and> last pulls < w \<and> py_round_half (s + e) = s)"
  shows "find_end_page url w s e = None"
proof (cases "find_end_page url w s e")
  case None
  then show ?thesis .
next
  case (Some r)
  let ?P = "\<lambda>url' w' s' e' (r :: py_error + int). \<not> (url' = url \<and> w' = w \<and> s' = s \<and> e' = e)"
  have "?P url w s e r"
  proof (rule find_end_page.raw_induct [where P = ?P, OF _ Some])
    fix f :: "stream \<Rightarrow> int \<Rightarrow> int \<Rightarrow> int \<Rightarrow> (py_error + int) option"
    fix url' :: stream and w' s' e' :: int and r :: "py_error + int"
    assume IH: "\<And>url' w' s' e' r. f url' w' s' e' = Some r \<Longrightarrow> ?P url' w' s' e' r"
    assume body: "(let mid = py_round_half (s' + e') in
      case url' mid of
        Fetched pulls \<Rightarrow>
          if pulls = [] then Some (Inl IndexError)
          else
            let first_date = hd pulls; last_date = last pulls in
            if s' = e' then
              (if w' < first_date then Some (Inr (mid - 1)) else Some (Inr mid))
            else if w' < first_date then f url' w' s' mid
            else if w' > last_date then f url' w' mid e'
            else Some (Inr mid)
      | NotOk \<Rightarrow> Some (Inl KeyError)
      | Raised e \<Rightarrow> Some (Inl e)) = Some r"
    show "?P url' w' s' e' r"
    proof
      assume a: "url' = url \<and> w' = w \<and> s' = s \<and> e' = e"
      with body pg ne loop have "f url w s e = Some r"
        by (auto simp: Let_def)
      from IH[OF this] show False by simp
    qed
  qed
  then show ?thesis by simp
qed

text \<open>
  Claim C10 (the recursive searches terminate on every interval) fails on the code. On
  the two pages \<open>[10, 20]\<close>, \<open>[30, 40]\<close> the midpoint of \<open>[1, 2]\<close> is
  \<open>round(1.5) = 2\<close>; a window start of 5 lies before the first item of page 2, the start
  search recurses on \<open>[start, mid] = [1, 2]\<close>, the interval it was called with, and never
  returns; the end search does the same for a window end of 25. On three pages the
  midpoint of \<open>[2, 3]\<close> is \<open>round(2.5) = 2\<close>, and a window start in page 3 (or a window
  end between pages 2 and 3) sends the search from \<open>[1, 3]\<close> to \<open>[mid, end] = [2, 3]\<close>
  for ever. \<open>None\<close> is the value of a search that does not return.
\<close>

theorem binary_search_never_returns:
  "find_start_page (pages_stream [[10, 20], [30, 40]]) 5 1 2 = None \<and>
   find_end_page (pages_stream [[10, 20], [30, 40]]) 25 1 2 = None \<and>
   find_start_page (pages_stream [[10, 20], [30, 40], [50, 60]]) 55 1 3 = None \<and>
   find_end_page (pages_stream [[10, 20], [30, 40], [50, 60]]) 45 1 3 = None"
proof (intro conjI)
  show "find_start_page (pages_stream [[10, 20], [30, 40]]) 5 1 2 = None"
    by (rule find_start_page_self_call[where pulls = "[30, 40]"])
      (simp_all add: pages_stream_def py_round_half_def)
  show "find_end_page (pages_stream [[10, 20], [30, 40]]) 25 1 2 = None"
    by (rule find_end_page_self_call[where pulls = "[30, 40]"])
      (simp_all add: pages_stream_def py_round_half_def)
  have "find_start_page (pages_stream [[10, 20], [30, 40], [50, 60]]) 55 2 3 = None"
    by (rule find_start_page_self_call[where pulls = "[30, 40]"])
      (simp_all add: pages_stream_def py_round_half_def)
  then show "find_start_page (pages_stream [[10, 20], [30, 40], [50, 60]]) 55 1 3 = None"
    by (subst find_start_page.simps) (simp add: pages_stream_def py_round_half_def)
  have "find_end_page (pages_stream [[10, 20], [30, 40], [50, 60]]) 45 2 3 = None"
    by (rule find_end_page_self_call[where pulls = "[30, 40]"])
      (simp_all add: pages_stream_def py_round_half_def)
  then show "find_end_page (pages_stream [[10, 20], [30, 40], [50, 60]]) 45 1 3 = None"
    by (subst find_end_page.simps) (simp add: pages_stream_def py_round_half_def)
qed

text \<open>
  Claim C5 (a start date before 2015 and no explicit start page start the stream at page
  1, without a search) fails on the code: the search runs all the same and its result
  replaces the 1. With a start date of 2014-06-01 and three pages whose second page spans
  that date, the stream starts at page 2; with the default start date 2000-01-01 and two
  pages the search never returns; on a repository of one page, whose response has no
  \<open>Link\<close> header, it raises KeyError.
\<close>

theorem crawl_start_page_searches_before_2015:
  "(1401580800 :: int) < iso_2015 \<and>
   crawl_start_page 1401580800 (- 1) (Fetched (LinkLast 3))
     (pages_stream [[1262304000, 1293840000], [1388534400, 1404172800], [1451606400, 1483228800]])
     = Some (Inr 2) \<and>
   (946684800 :: int) < iso_2015 \<and>
   crawl_start_page 946684800 (- 1) (Fetched (LinkLast 2))
     (pages_stream [[1262304000, 1293840000], [1388534400, 1404172800]]) = None \<and>
   crawl_start_page 946684800 (- 1) (Fetched NoLink)
     (pages_stream [[1262304000, 1293840000]]) = Some (Inl KeyError)"
proof (intro conjI)
  have "find_start_page (pages_stream [[1262304000, 1293840000], [1388534400, 1404172800]]) 946684800 1 2 = None"
    by (rule find_start_page_self_call[where pulls = "[1388534400, 1404172800]"])
      (simp_all add: pages_stream_def py_round_half_def)
  then show "crawl_start_page 946684800 (- 1) (Fetched (LinkLast 2))
     (pages_stream [[1262304000, 1293840000], [1388534400, 1404172800]]) = None"
    by (simp add: crawl_start_page_def get_starting_page_def)
qed (simp_all add: crawl_start_page_def get_starting_page_def iso_2015_def
      find_start_page.simps pages_stream_def py_round_half_def)

section \<open>Rate-limited fetcher: retries and the retry budget\<close>

lemma try_to_get_rate_limited:
  assumes "\<not> ok r" "status_code r \<noteq> 404" "rate_limited r" "ratelimit_reset r = Some reset"
    and "now w \<le> reset + 1"
  shows "try_to_get (Response r # rest) w = try_to_get rest (sleep (reset - now w + 1) w)"
  using assms by (simp add: Let_def)

lemma try_to_get_run:
  "rate_limited_run run w \<Longrightarrow> try_to_get (run @ rest) w = try_to_get rest (after_run run w)"
proof (induction run w rule: rate_limited_run.induct)
  case (1 w)
  then show ?case by simp
next
  case (2 rest0 w)
  then show ?case by simp
next
  case (3 r rest0 w)
  from "3.prems" obtain reset where reset: "ratelimit_reset r = Some reset"
    by (auto split: option.splits)
  with "3.prems" have facts: "\<not> ok r" "status_code r \<noteq> 404" "rate_limited r" "now w \<le> reset + 1"
    and run: "rate_limited_run rest0 (sleep (reset - now w + 1) w)"
    by simp_all
  have "try_to_get ((Response r # rest0) @ rest) w
        = try_to_get (rest0 @ rest) (sleep (reset - now w + 1) w)"
    using try_to_get_rate_limited[OF facts(1,2,3) reset facts(4)] by simp
  also have "\<dots> = try_to_get rest (after_run rest0 (sleep (reset - now w + 1) w))"
    using "3.IH"[OF reset run] .
  finally show ?case using reset by simp
qed

lemma get_loop_cong_try:
  assumes "try_to_get script w = try_to_get script' w'"
  shows "get_loop m rw tries script w = get_loop m rw tries script' w'"
  by (subst get_loop.simps, subst (2) get_loop.simps) (simp add: assms)

lemma plain_failure_consumes_one_try:
  assumes "\<not> ok r" "status_code r \<noteq> 404" "\<not> rate_limited r"
    and "tries + 1 < m" "0 \<le> rw"
  shows "get_loop m rw tries (Response r # rest) w = get_loop m rw (tries + 1) rest (sleep rw w)"
  using assms by (subst get_loop.simps) (simp add: Let_def)

lemma plain_failure_exhausts_budget:
  assumes "\<not> ok r" "status_code r \<noteq> 404" "\<not> rate_limited r"
    and "m \<le> tries + 1"
  shows "get_loop m rw tries (Response r # rest) w = Some (Raised TooManyRequestFailures, rest, w)"
  using assms by (subst get_loop.simps) (simp add: Let_def)

text \<open>
  A rate-limited response whose reset time is not more than a second in the past takes
  the path of lines 376-380: the fetch sleeps until one second after the reset time and
  asks again with the counter \<open>tries\<close> unchanged, so a run of such responses raises
  nothing, whatever \<open>max_request_tries\<close> is.
\<close>

lemma fresh_reset_keeps_tries:
  assumes run: "rate_limited_run run w"
  shows "get_loop m rw tries (run @ rest) w = get_loop m rw tries rest (after_run run w) \<and>
         get_loop m rw tries run w = None \<and>
         (\<forall>r reset. run = [Response r] \<and> ratelimit_reset r = Some reset \<longrightarrow>
            now (after_run run w) = reset + 1 \<and>
            slept (after_run run w) = slept w @ [reset - now w + 1])"
proof (intro conjI allI impI)
  show "get_loop m rw tries (run @ rest) w = get_loop m rw tries rest (after_run run w)"
    by (rule get_loop_cong_try) (rule try_to_get_run[OF run])
  have "try_to_get run w = None"
    using try_to_get_run[OF run, of "[]"] by simp
  then show "get_loop m rw tries run w = None"
    by (subst get_loop.simps) simp
next
  fix r reset
  assume a: "run = [Response r] \<and> ratelimit_reset r = Some reset"
  then show "now (after_run run w) = reset + 1"
    by (simp add: sleep_def)
  from a show "slept (after_run run w) = slept w @ [reset - now w + 1]"
    by (simp add: sleep_def)
qed

text \<open>
  Claim C4 (a rate-limited response makes the fetch sleep until one second after the reset
  time and retry, without a try being counted) fails on the code when the reset time is
  more than one second in the past by the local clock. Then \<open>ratelimit_wait_secs\<close> is
  negative, \<open>time.sleep\<close> raises ValueError inside the \<open>try\<close>, the \<open>except\<close> branch
  returns the bare \<open>None\<close>, and \<open>r, ok = self._try_to_get(url)\<close> in \<open>_get\<close> raises
  TypeError: nothing sleeps, the request is not repeated (the responses that would have
  followed are never asked for), and the fetch ends with an exception that is not
  TooManyRequestFailures. This holds for every such response, every retry budget and
  every retry wait.
\<close>

theorem stale_reset_raises_TypeError:
  assumes "\<not> ok r" and "status_code r \<noteq> 404" and "rate_limited r"
    and "ratelimit_reset r = Some reset" and "reset + 1 < now w"
  shows "try_to_get (Response r # rest) w = Some (BareNone, rest, w) \<and>
         get max_request_tries request_retry_wait_secs (Response r # rest) w =
           Some (Raised TypeError, rest, w)"
proof -
  from assms have t: "try_to_get (Response r # rest) w = Some (BareNone, rest, w)"
    by (simp add: Let_def)
  then have "get_loop max_request_tries request_retry_wait_secs 0 (Response r # rest) w =
      Some (Raised TypeError, rest, w)"
    by (subst get_loop.simps) simp
  with t show ?thesis by (simp add: get_def)
qed

theorem stale_reset_raises_TypeError_witness:
  "\<not> ok \<lparr>status_code = 403, ratelimit_remaining = Some 0,
           ratelimit_reset = Some 1600000000, error_message = True\<rparr> \<and>
   rate_limited \<lparr>status_code = 403, ratelimit_remaining = Some 0,
           ratelimit_reset = Some 1600000000, error_message = True\<rparr> \<and>
   (1600000000 :: int) + 1 < now \<lparr>now = 1600000003, slept = []\<rparr> \<and>
   get 100 10
     [Response \<lparr>status_code = 403, ratelimit_remaining = Some 0,
                 ratelimit_reset = Some 1600000000, error_message = True\<rparr>,
      Response \<lparr>status_code = 200, ratelimit_remaining = Some 4999,
                 ratelimit_reset = Some 1600003600, error_message = False\<rparr>]
     \<lparr>now = 1600000003, slept = []\<rparr>
   = Some (Raised TypeError,
       [Response \<lparr>status_code = 200, ratelimit_remaining = Some 4999,
                   ratelimit_reset = Some 1600003600, error_message = False\<rparr>],
       \<lparr>now = 1600000003, slept = []\<rparr>)"
proof -
  let ?r = "\<lparr>status_code = 403, ratelimit_remaining = Some 0,
             ratelimit_reset = Some 1600000000, error_message = True\<rparr>"
  let ?w = "\<lparr>now = 1600000003, slept = []\<rparr>"
  have h: "\<not> ok ?r" "status_code ?r \<noteq> 404" "rate_limited ?r"
    "ratelimit_reset ?r = Some 1600000000" "(1600000000 :: int) + 1 < now ?w"
    by (simp_all add: ok_def rate_limited_def)
  from stale_reset_raises_TypeError[OF h] h show ?thesis by simp
qed

text \<open>
  Claim C3 (every failure other than a 404 and a rate limit consumes one try, sleeps and
  retries) fails on the code for two of its three kinds of failure. After a network
  exception, and after a payload with an error message, \<open>_try_to_get\<close> returns a bare
  \<open>None\<close>, and \<open>r, ok = self._try_to_get(url)\<close> in \<open>_get\<close> raises TypeError: no try
  is counted, nothing sleeps, and the successful response that would have followed is
  never requested. Only a status that is not ok takes the path the claim describes: two
  of them followed by a success give the response after two sleeps of
  \<open>request_retry_wait_secs\<close>.
\<close>

theorem get_raises_TypeError:
  "get 100 10
     [RequestException,
      Response \<lparr>status_code = 200, ratelimit_remaining = Some 59, ratelimit_reset = Some 5000,
                 error_message = False\<rparr>]
     \<lparr>now = 900, slept = []\<rparr>
   = Some (Raised TypeError,
       [Response \<lparr>status_code = 200, ratelimit_remaining = Some 59, ratelimit_reset = Some 5000,
                 error_message = False\<rparr>],
       \<lparr>now = 900, slept = []\<rparr>) \<and>
   get 100 10
     [Response \<lparr>status_code = 200, ratelimit_remaining = Some 59, ratelimit_reset = Some 5000,
                 error_message = True\<rparr>,
      Response \<lparr>status_code = 200, ratelimit_remaining = Some 58, ratelimit_reset = Some 5000,
                 error_message = False\<rparr>]
     \<lparr>now = 900, slept = []\<rparr>
   = Some (Raised TypeError,
       [Response \<lparr>status_code = 200, ratelimit_remaining = Some 58, ratelimit_reset = Some 5000,
                 error_message = False\<rparr>],
       \<lparr>now = 900, slept = []\<rparr>) \<and>
   get 100 10
     [Response \<lparr>status_code = 500, ratelimit_remaining = Some 59, ratelimit_reset = Some 5000,
                 error_message = False\<rparr>,
      Response \<lparr>status_code = 502, ratelimit_remaining = Some 58, ratelimit_reset = Some 5000,
                 error_message = False\<rparr>,
      Response \<lparr>status_code = 200, ratelimit_remaining = Some 57, ratelimit_reset = Some 5000,
                 error_message = False\<rparr>]
     \<lparr>now = 900, slept = []\<rparr>
   = Some (Fetched \<lparr>status_code = 200, ratelimit_remaining = Some 57, ratelimit_reset = Some 5000,
                 error_message = False\<rparr>, [], \<lparr>now = 920, slept = [10, 10]\<rparr>)"
  by (simp add: get_def get_loop.simps ok_def rate_limited_def sleep_def)

section \<open>Diff attribution: what the tallies count\<close>

lemma length_sections: "length sections = 9"
  by (simp add: sections_def)

lemma section_of_less: "section_of f < length sections"
proof (cases "find (\<lambda>i. startswith f (sections ! i)) [0..<length sections]")
  case None
  then show ?thesis by (simp add: section_of_def length_sections)
next
  case (Some i)
  then have "i \<in> set [0..<length sections]"
    by (auto simp: find_Some_iff)
  with Some show ?thesis by (simp add: section_of_def)
qed


lemma section_of_no_match:
  assumes "\<forall>j<length sections. \<not> startswith f (sections ! j)"
  shows "section_of f = length sections - 1"
proof -
  have "find (\<lambda>i. startswith f (sections ! i)) [0..<length sections] = None"
    unfolding find_None_iff using assms by simp
  then show ?thesis by (simp add: section_of_def)
qed

lemma section_of_empty: "section_of [] = length sections - 1"
  by (rule section_of_no_match) (simp add: startswith_def sections_def less_Suc_eq numeral_nat nth_Cons')



definition attribution_ok :: "attribution \<Rightarrow> bool" where
  "attribution_ok st \<longleftrightarrow>
     length (section_data st) = length sections \<and>
     current_section st = section_of (current_filename st)"

lemma attribution_ok_initial: "attribution_ok initial_attribution"
  by (simp add: attribution_ok_def initial_attribution_def section_of_empty)

lemma attribution_ok_step: "attribution_ok st \<Longrightarrow> attribution_ok (attribute_line st l)"
  by (auto simp: attribution_ok_def attribute_line_def Let_def split: option.splits)

lemma new_files_Cons:
  "new_files cur (l # diff) =
     (case diff_file_match l of
        None \<Rightarrow> new_files cur diff
      | Some f \<Rightarrow> if f = cur then new_files cur diff else f # new_files f diff)"
  by (simp add: new_files_def header_files_def List.map_filter_simps split: option.splits)

lemma count_files_Cons:
  "count_files i cur (l # diff) =
     (case diff_file_match l of
        None \<Rightarrow> count_files i cur diff
      | Some f \<Rightarrow> if f = cur then count_files i cur diff
                  else (if section_of f = i then 1 else 0) + count_files i f diff)"
  by (simp add: count_files_def new_files_Cons split: option.splits)

lemma count_lines_Cons:
  "count_lines kind i cur (l # diff) =
     (case diff_file_match l of
        None \<Rightarrow> (if section_of cur = i \<and> kind l then 1 else 0) + count_lines kind i cur diff
      | Some f \<Rightarrow> count_lines kind i f diff)"
  by (simp add: count_lines_def split: option.splits)

lemma step_changed_files:
  assumes "attribution_ok st" "i < length sections"
  shows "changed_files (section_data (attribute_line st l) ! i) =
         changed_files (section_data st ! i) +
           (case diff_file_match l of
              None \<Rightarrow> 0
            | Some f \<Rightarrow> if f \<noteq> current_filename st \<and> section_of f = i then 1 else 0)"
  using assms section_of_less[of "current_filename st"]
  by (auto simp: attribution_ok_def attribute_line_def Let_def nth_list_update section_of_less
      split: option.splits)

lemma step_additions:
  assumes "attribution_ok st" "i < length sections"
  shows "additions (section_data (attribute_line st l) ! i) =
         additions (section_data st ! i) +
           (case diff_file_match l of
              None \<Rightarrow> if section_of (current_filename st) = i \<and> is_addition l then 1 else 0
            | Some f \<Rightarrow> 0)"
  using assms section_of_less[of "current_filename st"]
  by (auto simp: attribution_ok_def attribute_line_def Let_def nth_list_update section_of_less
      is_addition_def split: option.splits)

lemma step_deletions:
  assumes "attribution_ok st" "i < length sections"
  shows "deletions (section_data (attribute_line st l) ! i) =
         deletions (section_data st ! i) +
           (case diff_file_match l of
              None \<Rightarrow> if section_of (current_filename st) = i \<and> is_deletion l then 1 else 0
            | Some f \<Rightarrow> 0)"
  using assms section_of_less[of "current_filename st"]
  by (auto simp: attribution_ok_def attribute_line_def Let_def nth_list_update section_of_less
      is_deletion_def startswith_def split: option.splits)

lemma step_current_filename:
  "current_filename (attribute_line st l) =
     (case diff_file_match l of None \<Rightarrow> current_filename st | Some f \<Rightarrow> f)"
  by (auto simp: attribute_line_def Let_def split: option.splits)

lemma fold_counts:
  assumes "attribution_ok st" "i < length sections"
  shows "changed_files (section_data (foldl attribute_line st diff) ! i) =
           changed_files (section_data st ! i) + count_files i (current_filename st) diff \<and>
         additions (section_data (foldl attribute_line st diff) ! i) =
           additions (section_data st ! i) + count_lines is_addition i (current_filename st) diff \<and>
         deletions (section_data (foldl attribute_line st diff) ! i) =
           deletions (section_data st ! i) + count_lines is_deletion i (current_filename st) diff \<and>
         attribution_ok (foldl attribute_line st diff)"
  using assms
proof (induction diff arbitrary: st)
  case Nil
  then show ?case by (simp add: count_files_def count_lines_def new_files_def header_files_def
        List.map_filter_simps)
next
  case (Cons l diff)
  have ok': "attribution_ok (attribute_line st l)"
    using Cons.prems(1) by (rule attribution_ok_step)
  note IH = Cons.IH[OF ok' Cons.prems(2)]
  show ?case
  proof (cases "diff_file_match l")
    case None
    with IH step_changed_files[OF Cons.prems, of l] step_additions[OF Cons.prems, of l]
      step_deletions[OF Cons.prems, of l] step_current_filename[of st l]
    show ?thesis
      by (simp add: count_files_Cons count_lines_Cons)
  next
    case (Some f)
    with IH step_changed_files[OF Cons.prems, of l] step_additions[OF Cons.prems, of l]
      step_deletions[OF Cons.prems, of l] step_current_filename[of st l]
    show ?thesis
      by (simp add: count_files_Cons count_lines_Cons)
  qed
qed










lemma two_file_diff_changes:
  "get_section_changes two_file_diff =
     [\<lparr>changed_files = 0, additions = 0, deletions = 0\<rparr>,
      \<lparr>changed_files = 0, additions = 0, deletions = 0\<rparr>,
      \<lparr>changed_files = 0, additions = 0, deletions = 0\<rparr>,
      \<lparr>changed_files = 0, additions = 0, deletions = 0\<rparr>,
      \<lparr>changed_files = 0, additions = 0, deletions = 0\<rparr>,
      \<lparr>changed_files = 0, additions = 0, deletions = 0\<rparr>,
      \<lparr>changed_files = 1, additions = 2, deletions = 1\<rparr>,
      \<lparr>changed_files = 0, additions = 0, deletions = 0\<rparr>,
      \<lparr>changed_files = 1, additions = 1, deletions = 0\<rparr>]"
  by code_simp



section \<open>Export step: the check of the sums\<close>

lemma check_attribute_empty:
  "check_attribute a reported number data = [] \<longleftrightarrow>
     sum_list (map (\<lambda>i. a (data ! i)) [0..<length sections]) = reported"
  by (simp add: check_attribute_def Let_def)

lemma issue_rows_columns:
  "row \<in> set (fst (issue_rows s e rd pull data ns)) \<Longrightarrow>
     row_section_columns row =
       concat (map (\<lambda>a. map (\<lambda>i. a (data ! i)) [0..<length sections])
          [changed_files, additions, deletions])"
  by (induction ns arbitrary: row)
    (auto simp: dataset_row_def split: option.splits if_splits prod.splits)

lemma issue_rows_totals_irrelevant:
  "map row_issue_number (fst (issue_rows s e rd (pull\<lparr>pull_changed_files := c, pull_additions := a, pull_deletions := d\<rparr>) data ns))
     = map row_issue_number (fst (issue_rows s e rd pull data ns)) \<and>
   map row_section_columns (fst (issue_rows s e rd (pull\<lparr>pull_changed_files := c, pull_additions := a, pull_deletions := d\<rparr>) data ns))
     = map row_section_columns (fst (issue_rows s e rd pull data ns)) \<and>
   snd (issue_rows s e rd (pull\<lparr>pull_changed_files := c, pull_additions := a, pull_deletions := d\<rparr>) data ns)
     = snd (issue_rows s e rd pull data ns)"
  by (induction ns) (auto simp: dataset_row_def split: option.splits if_splits prod.splits)

lemma issue_rows_all_read:
  assumes "\<forall>n\<in>set ns. rd n \<noteq> None"
  shows "snd (issue_rows s e rd pull data ns) = None \<and>
         map row_issue_number (fst (issue_rows s e rd pull data ns)) =
           map (\<lambda>n. issue_number (the (rd n)))
             (filter (\<lambda>n. \<not> (issue_created_at (the (rd n)) < s \<or> issue_created_at (the (rd n)) > e)) ns)"
  using assms
  by (induction ns) (auto simp: dataset_row_def split: option.splits if_splits prod.splits)

lemma length_get_section_changes: "length (get_section_changes diff) = length sections"
  using fold_counts[OF attribution_ok_initial, of 0 diff]
  by (simp add: get_section_changes_def attribution_ok_def sections_def)

lemma section_values_sum:
  "sum_list (map (\<lambda>i. a (get_section_changes diff ! i)) [0..<length sections]) =
   sum_list (map a (get_section_changes diff))"
proof -
  have "map (\<lambda>i. a (get_section_changes diff ! i)) [0..<length (get_section_changes diff)] =
        map a (get_section_changes diff)"
    by (rule nth_equalityI) simp_all
  then show ?thesis by (simp only: length_get_section_changes)
qed

text \<open>
  Claim C9. For a pull inside the window: something is printed exactly when, for one of
  the three attributes, the sum over the sections differs from the total the pull
  reports; every row written carries the section values of \<open>_get_section_changes\<close> as
  they are; replacing the pull's reported totals by any others changes neither the issues
  rows are written for, nor their section values, nor whether an exception is raised;
  and when every linked issue file can be read, no exception is raised and a row is
  written for every linked issue inside the window, in ascending order of the numbers.
\<close>

theorem sum_mismatch_is_only_logged:
  assumes window: "\<not> (pull_created_at pull < s \<or> pull_created_at pull > e)"
  shows "(fst (export_pull s e rd pull diff) = [] \<longleftrightarrow>
            sum_list (map changed_files (get_section_changes diff)) = pull_changed_files pull \<and>
            sum_list (map additions (get_section_changes diff)) = pull_additions pull \<and>
            sum_list (map deletions (get_section_changes diff)) = pull_deletions pull) \<and>
         (\<forall>row\<in>set (fst (snd (export_pull s e rd pull diff))).
            row_section_columns row =
              concat (map (\<lambda>a. map (\<lambda>i. a (get_section_changes diff ! i)) [0..<length sections])
                [changed_files, additions, deletions])) \<and>
         (\<forall>c a d.
            map row_issue_number
              (fst (snd (export_pull s e rd
                 (pull\<lparr>pull_changed_files := c, pull_additions := a, pull_deletions := d\<rparr>) diff)))
              = map row_issue_number (fst (snd (export_pull s e rd pull diff))) \<and>
            map row_section_columns
              (fst (snd (export_pull s e rd
                 (pull\<lparr>pull_changed_files := c, pull_additions := a, pull_deletions := d\<rparr>) diff)))
              = map row_section_columns (fst (snd (export_pull s e rd pull diff))) \<and>
            snd (snd (export_pull s e rd
                 (pull\<lparr>pull_changed_files := c, pull_additions := a, pull_deletions := d\<rparr>) diff))
              = snd (snd (export_pull s e rd pull diff))) \<and>
         ((\<forall>n\<in>set (linked_issue_numbers pull). rd n \<noteq> None) \<longrightarrow>
            snd (snd (export_pull s e rd pull diff)) = None \<and>
            map row_issue_number (fst (snd (export_pull s e rd pull diff))) =
              map (\<lambda>n. issue_number (the (rd n)))
                (filter (\<lambda>n. \<not> (issue_created_at (the (rd n)) < s \<or> issue_created_at (the (rd n)) > e))
                   (sort (linked_issue_numbers pull))))"
proof (intro conjI allI impI ballI)
  show "fst (export_pull s e rd pull diff) = [] \<longleftrightarrow>
            sum_list (map changed_files (get_section_changes diff)) = pull_changed_files pull \<and>
            sum_list (map additions (get_section_changes diff)) = pull_additions pull \<and>
            sum_list (map deletions (get_section_changes diff)) = pull_deletions pull"
    using window
    by (simp add: export_pull_def Let_def check_attribute_empty section_values_sum)
next
  fix row
  assume "row \<in> set (fst (snd (export_pull s e rd pull diff)))"
  then show "row_section_columns row =
              concat (map (\<lambda>a. map (\<lambda>i. a (get_section_changes diff ! i)) [0..<length sections])
                [changed_files, additions, deletions])"
    using window issue_rows_columns[of row s e rd pull "get_section_changes diff"
        "sort (linked_issue_numbers pull)"]
    by (simp add: export_pull_def Let_def)
next
  fix c a d
  note ir = issue_rows_totals_irrelevant[where s = s and e = e and rd = rd and pull = pull
      and c = c and a = a and d = d and data = "get_section_changes diff"
      and ns = "sort (linked_issue_numbers pull)"]
  show "map row_issue_number
              (fst (snd (export_pull s e rd
                 (pull\<lparr>pull_changed_files := c, pull_additions := a, pull_deletions := d\<rparr>) diff)))
              = map row_issue_number (fst (snd (export_pull s e rd pull diff)))"
    using window ir by (simp add: export_pull_def Let_def)
  show "map row_section_columns
              (fst (snd (export_pull s e rd
                 (pull\<lparr>pull_changed_files := c, pull_additions := a, pull_deletions := d\<rparr>) diff)))
              = map row_section_columns (fst (snd (export_pull s e rd pull diff)))"
    using window ir by (simp add: export_pull_def Let_def)
  show "snd (snd (export_pull s e rd
                 (pull\<lparr>pull_changed_files := c, pull_additions := a, pull_deletions := d\<rparr>) diff))
              = snd (snd (export_pull s e rd pull diff))"
    using window ir by (simp add: export_pull_def Let_def)
next
  assume rd: "\<forall>n\<in>set (linked_issue_numbers pull). rd n \<noteq> None"
  then have "\<forall>n\<in>set (sort (linked_issue_numbers pull)). rd n \<noteq> None" by simp
  note ar = issue_rows_all_read[OF this, of s e pull "get_section_changes diff"]
  show "snd (snd (export_pull s e rd pull diff)) = None"
    using window ar by (simp add: export_pull_def Let_def)
  show "map row_issue_number (fst (snd (export_pull s e rd pull diff))) =
              map (\<lambda>n. issue_number (the (rd n)))
                (filter (\<lambda>n. \<not> (issue_created_at (the (rd n)) < s \<or> issue_created_at (the (rd n)) > e))
                   (sort (linked_issue_numbers pull)))"
    using window ar by (simp add: export_pull_def Let_def)
qed

theorem sum_mismatch_is_only_logged_witness:
  "\<not> (pull_created_at
        \<lparr>pull_number = 42, pull_created_at = 150, linked_issue_numbers = [7, 3],
         pull_changed_files = 2, pull_additions = 5, pull_deletions = 1\<rparr> < 100 \<or>
       pull_created_at
        \<lparr>pull_number = 42, pull_created_at = 150, linked_issue_numbers = [7, 3],
         pull_changed_files = 2, pull_additions = 5, pull_deletions = 1\<rparr> > 200) \<and>
   sum_list (map additions (get_section_changes two_file_diff)) = 3 \<and>
   fst (export_pull 100 200
         (\<lambda>n. Some \<lparr>issue_number = n, issue_created_at = 120\<rparr>)
         \<lparr>pull_number = 42, pull_created_at = 150, linked_issue_numbers = [7, 3],
          pull_changed_files = 2, pull_additions = 5, pull_deletions = 1\<rparr>
         two_file_diff)
     = [PrintedList [0, 0, 0, 0, 0, 0, 2, 0, 1], PrintedInt 3, PrintedInt 5, PrintedInt 42] \<and>
   map row_issue_number (fst (snd (export_pull 100 200
         (\<lambda>n. Some \<lparr>issue_number = n, issue_created_at = 120\<rparr>)
         \<lparr>pull_number = 42, pull_created_at = 150, linked_issue_numbers = [7, 3],
          pull_changed_files = 2, pull_additions = 5, pull_deletions = 1\<rparr>
         two_file_diff))) = [3, 7] \<and>
   snd (snd (export_pull 100 200
         (\<lambda>n. Some \<lparr>issue_number = n, issue_created_at = 120\<rparr>)
         \<lparr>pull_number = 42, pull_created_at = 150, linked_issue_numbers = [7, 3],
          pull_changed_files = 2, pull_additions = 5, pull_deletions = 1\<rparr>
         two_file_diff)) = None"
proof -
  let ?pull = "\<lparr>pull_number = 42, pull_created_at = 150, linked_issue_numbers = [7, 3],
         pull_changed_files = 2, pull_additions = 5, pull_deletions = 1\<rparr>"
  let ?rd = "\<lambda>n. Some \<lparr>issue_number = n, issue_created_at = 120\<rparr>"
  have window: "\<not> (pull_created_at ?pull < 100 \<or> pull_created_at ?pull > 200)" by simp
  have out: "fst (export_pull 100 200 ?rd ?pull two_file_diff)
     = [PrintedList [0, 0, 0, 0, 0, 0, 2, 0, 1], PrintedInt 3, PrintedInt 5, PrintedInt 42]"
    by (simp add: export_pull_def Let_def check_attribute_def two_file_diff_changes sections_def
        upt_rec[of _ "numeral n" for n] upt_rec[of 0] )
  from sum_mismatch_is_only_logged[OF window, of ?rd two_file_diff] out
  show ?thesis
    by (simp add: two_file_diff_changes)
qed

section \<open>Link extractor: the numbers it returns\<close>



lemma ci_startswith_empty: "ci_startswith [] (d # lit) \<longleftrightarrow> False"
  by (simp add: ci_startswith_def)







lemma is_word_digit: "is_digit c \<Longrightarrow> is_word c"
  by (auto simp: is_digit_def is_word_def Let_def)











section \<open>Crawl engine: the end of a stream and the pulls that are skipped\<close>

lemma save_linked_issues_frame:
  "pages_requested (fst (save_linked_issues rem ns st)) = pages_requested st \<and>
   interrupted (fst (save_linked_issues rem ns st)) = interrupted st \<and>
   page (fst (save_linked_issues rem ns st)) = page st \<and>
   (\<exists>more. saved (fst (save_linked_issues rem ns st)) = saved st @ more)"
proof (induction ns arbitrary: st)
  case Nil
  then show ?case by simp
next
  case (Cons n ns)
  show ?case
  proof (cases "get_issue rem n")
    case (Fetched issue)
    let ?st = "st\<lparr>requested := requested st @ [IssueDetail n],
                  saved := saved st @ [IssueFile n issue],
                  num_issues := num_issues st + 1,
                  list_issues := insert n (list_issues st)\<rparr>"
    from Cons.IH[of ?st] Fetched show ?thesis
      by (auto simp: Let_def pages_requested_def)
  next
    case NotOk
    from Cons.IH[of "st\<lparr>requested := requested st @ [IssueDetail n]\<rparr>"] NotOk show ?thesis
      by (auto simp: Let_def pages_requested_def)
  next
    case (Raised e)
    then show ?thesis by (simp add: Let_def pages_requested_def)
  qed
qed

lemma save_linked_issues_no_raise:
  "never_raises rem \<Longrightarrow> snd (save_linked_issues rem ns st) = None"
proof (induction ns arbitrary: st)
  case Nil
  then show ?case by simp
next
  case (Cons n ns)
  then show ?case
    by (cases "get_issue rem n") (auto simp: Let_def never_raises_def)
qed

lemma process_pulls_frame:
  "pages_requested (fst (process_pulls cfg rem ps st)) = pages_requested st \<and>
   interrupted (fst (process_pulls cfg rem ps st)) = interrupted st \<and>
   page (fst (process_pulls cfg rem ps st)) = page st \<and>
   (\<exists>more. saved (fst (process_pulls cfg rem ps st)) = saved st @ more)"
proof (induction ps arbitrary: st)
  case Nil
  then show ?case by simp
next
  case (Cons p ps)
  let ?linked = "extract_linked_issue_numbers (p_body p) (linked_issues_regex cfg)"
  let ?st1 = "st\<lparr>requested := requested st @ [PullDetail (p_number p)]\<rparr>"
  show ?case
  proof (cases "p_created_at p < start_date cfg \<or> p_created_at p > end_date cfg")
    case True
    with Cons.IH[of st] show ?thesis by simp
  next
    case window: False
    show ?thesis
    proof (cases "get_pull rem (p_number p)")
      case NotOk
      with window Cons.IH[of ?st1] show ?thesis
        by (auto simp: Let_def pages_requested_def)
    next
      case (Raised e)
      with window show ?thesis by (simp add: Let_def pages_requested_def)
    next
      case (Fetched pull)
      let ?st2 = "?st1\<lparr>requested := requested ?st1 @ [Diff (diff_url pull)]\<rparr>"
      show ?thesis
      proof (cases "get_diff rem (diff_url pull)")
        case NotOk
        with window Fetched Cons.IH[of ?st2] show ?thesis
          by (auto simp: Let_def pages_requested_def)
      next
        case (Raised e)
        with window Fetched show ?thesis by (simp add: Let_def pages_requested_def)
      next
        case diff: (Fetched diff)
        let ?st3 = "?st2\<lparr>saved := saved ?st2 @
             [DiffFile (p_number p) diff, PullFile (p_number p) pull ?linked]\<rparr>"
        obtain st4 err where sl: "save_linked_issues rem ?linked ?st3 = (st4, err)"
          by (cases "save_linked_issues rem ?linked ?st3") auto
        from save_linked_issues_frame[of rem ?linked ?st3] sl
        have f4: "pages_requested st4 = pages_requested st" "interrupted st4 = interrupted st"
          "page st4 = page st" "\<exists>more. saved st4 = saved st @ more"
          by (auto simp: pages_requested_def)
        let ?st5 = "st4\<lparr>num_pulls := num_pulls st4 + 1\<rparr>"
        have f5: "pages_requested ?st5 = pages_requested st" "interrupted ?st5 = interrupted st"
          "page ?st5 = page st" "\<exists>more. saved ?st5 = saved st @ more"
          using f4 by (auto simp: pages_requested_def)
        show ?thesis
        proof (cases err)
          case (Some e)
          with window Fetched diff sl f4 show ?thesis by (simp add: Let_def)
        next
          case None
          show ?thesis
          proof (cases "max_issue_number cfg > 0 \<and> num_issues ?st5 \<ge> max_issue_number cfg")
            case True
            with None window Fetched diff sl f5 show ?thesis by (simp add: Let_def)
          next
            case False
            from Cons.IH[of ?st5] f5 have "pages_requested (fst (process_pulls cfg rem ps ?st5)) = pages_requested st \<and>
               interrupted (fst (process_pulls cfg rem ps ?st5)) = interrupted st \<and>
               page (fst (process_pulls cfg rem ps ?st5)) = page st \<and>
               (\<exists>more. saved (fst (process_pulls cfg rem ps ?st5)) = saved st @ more)"
              by (metis append.assoc)
            with False None window Fetched diff sl show ?thesis by (auto simp: Let_def)
          qed
        qed
      qed
    qed
  qed
qed

lemma process_pulls_no_raise:
  "never_raises rem \<Longrightarrow> snd (process_pulls cfg rem ps st) = None"
proof (induction ps arbitrary: st)
  case Nil
  then show ?case by simp
next
  case (Cons p ps)
  have nr: "\<And>ns st. snd (save_linked_issues rem ns st) = None"
    using Cons.prems by (rule save_linked_issues_no_raise)
  have nr': "\<And>ns st st' e. save_linked_issues rem ns st = (st', Some e) \<Longrightarrow> False"
  proof -
    fix ns st st' e
    assume "save_linked_issues rem ns st = (st', Some e)"
    then have "snd (save_linked_issues rem ns st) = Some e" by simp
    with nr[of ns st] show False by simp
  qed
  show ?case
    using Cons
    by (auto simp: Let_def never_raises_def dest: nr'
        split: fetched.splits prod.splits option.splits)
qed

lemma process_issues_frame:
  "pages_requested (fst (process_issues cfg rem is st)) = pages_requested st \<and>
   interrupted (fst (process_issues cfg rem is st)) = interrupted st \<and>
   page (fst (process_issues cfg rem is st)) = page st"
proof (induction "is" arbitrary: st)
  case Nil
  then show ?case by simp
next
  case (Cons i "is")
  let ?st1 = "st\<lparr>requested := requested st @ [IssueDetail (i_number i)]\<rparr>"
  show ?case
  proof (cases "get_issue rem (i_number i)")
    case NotOk
    with Cons.IH[of st] Cons.IH[of ?st1] show ?thesis
      by (auto simp: Let_def pages_requested_def)
  next
    case (Raised e)
    with Cons.IH[of st] show ?thesis by (auto simp: Let_def pages_requested_def)
  next
    case (Fetched issue)
    let ?st2 = "?st1\<lparr>saved := saved ?st1 @ [IssueFile (i_number i) issue],
                      num_issues := num_issues ?st1 + 1\<rparr>"
    from Cons.IH[of st] Cons.IH[of ?st2] Fetched show ?thesis
      by (auto simp: Let_def pages_requested_def)
  qed
qed

lemma process_issues_no_raise:
  "never_raises rem \<Longrightarrow> snd (process_issues cfg rem is st) = None"
proof (induction "is" arbitrary: st)
  case Nil
  then show ?case by simp
next
  case (Cons i "is")
  then show ?case
    by (auto simp: Let_def never_raises_def split: fetched.splits)
qed

text \<open>
  Claim C7. When the condition of a page loop holds and the page it fetches has fewer
  items than \<open>per_page\<close>, the loop ends in this pass: the only request of a page it
  has added is the request of that page, so no further page is requested; it ends by
  \<open>break\<close> (by \<open>return\<close> when the interrupt key was pressed during the page) unless
  the fetch of a detail object, a diff or an issue raised an exception, which ends the
  loop as well. This holds for the loop over pulls and for the loop over issues.
\<close>

theorem short_page_ends_the_stream:
  assumes "\<not> interrupted st"
    and "\<not> (max_issue_number cfg > 0 \<and> num_issues st \<ge> max_issue_number cfg)"
    and "\<not> (end_page > 0 \<and> page st > end_page)"
  shows "(\<forall>pulls. get_pulls_page rem (page st) = Fetched pulls \<and>
                  int (length pulls) < per_page cfg \<longrightarrow>
            (\<exists>st' ex. pulls_loop cfg rem end_page st = Some (st', ex) \<and>
               pages_requested st' = pages_requested st @ [PullsPage (page st)] \<and>
               ex \<noteq> ConditionFalse \<and>
               (never_raises rem \<longrightarrow> ex = (if sigint rem (page st) then Return else Break)))) \<and>
         (\<forall>issues. get_issues_page rem (page st) = Fetched issues \<and>
                   int (length issues) < per_page cfg \<longrightarrow>
            (\<exists>st' ex. issues_loop cfg rem end_page st = Some (st', ex) \<and>
               pages_requested st' = pages_requested st @ [IssuesPage (page st)] \<and>
               ex \<noteq> ConditionFalse \<and>
               (never_raises rem \<longrightarrow> ex = (if sigint rem (page st) then Return else Break))))"
proof (intro conjI allI impI)
  fix pulls
  assume a: "get_pulls_page rem (page st) = Fetched pulls \<and> int (length pulls) < per_page cfg"
  let ?st1 = "st\<lparr>requested := requested st @ [PullsPage (page st)],
                  interrupted := interrupted st \<or> sigint rem (page st)\<rparr>"
  let ?st2 = "if save_pull_pages cfg
              then ?st1\<lparr>saved := saved ?st1 @ [PullsPageFile (page ?st1) pulls]\<rparr> else ?st1"
  obtain st3 err where pp: "process_pulls cfg rem pulls ?st2 = (st3, err)"
    by (cases "process_pulls cfg rem pulls ?st2") auto
  have st2: "pages_requested ?st2 = pages_requested st @ [PullsPage (page st)]"
    "interrupted ?st2 = sigint rem (page st)"
    using assms(1) by (simp_all add: pages_requested_def)
  from process_pulls_frame[of cfg rem pulls ?st2] pp st2
  have f3: "pages_requested st3 = pages_requested st @ [PullsPage (page st)]"
    "interrupted st3 = sigint rem (page st)"
    by simp_all
  have err: "never_raises rem \<Longrightarrow> err = None"
    using process_pulls_no_raise[of rem cfg pulls ?st2] pp by simp
  have loop: "pulls_loop cfg rem end_page st =
      (case err of
         Some e \<Rightarrow> Some (st3, Exception e)
       | None \<Rightarrow> if interrupted st3 then Some (st3, Return) else Some (st3, Break))"
    using assms a pp
    by (subst pulls_loop.simps) (cases "save_pull_pages cfg"; simp add: Let_def)
  show "\<exists>st' ex. pulls_loop cfg rem end_page st = Some (st', ex) \<and>
               pages_requested st' = pages_requested st @ [PullsPage (page st)] \<and>
               ex \<noteq> ConditionFalse \<and>
               (never_raises rem \<longrightarrow> ex = (if sigint rem (page st) then Return else Break))"
    using loop f3 err by (cases err) auto
next
  fix issues
  assume a: "get_issues_page rem (page st) = Fetched issues \<and>
             int (length issues) < per_page cfg"
  let ?st1 = "st\<lparr>requested := requested st @ [IssuesPage (page st)],
                  interrupted := interrupted st \<or> sigint rem (page st)\<rparr>"
  obtain st3 err where pp: "process_issues cfg rem issues ?st1 = (st3, err)"
    by (cases "process_issues cfg rem issues ?st1") auto
  have st1: "pages_requested ?st1 = pages_requested st @ [IssuesPage (page st)]"
    "interrupted ?st1 = sigint rem (page st)"
    using assms(1) by (simp_all add: pages_requested_def)
  from process_issues_frame[of cfg rem issues ?st1] pp st1
  have f3: "pages_requested st3 = pages_requested st @ [IssuesPage (page st)]"
    "interrupted st3 = sigint rem (page st)"
    by simp_all
  have err: "never_raises rem \<Longrightarrow> err = None"
    using process_issues_no_raise[of rem cfg issues ?st1] pp by simp
  have loop: "issues_loop cfg rem end_page st =
      (case err of
         Some e \<Rightarrow> Some (st3, Exception e)
       | None \<Rightarrow> if interrupted st3 then Some (st3, Return) else Some (st3, Break))"
    using assms a pp by (subst issues_loop.simps) (simp add: Let_def)
  show "\<exists>st' ex. issues_loop cfg rem end_page st = Some (st', ex) \<and>
               pages_requested st' = pages_requested st @ [IssuesPage (page st)] \<and>
               ex \<noteq> ConditionFalse \<and>
               (never_raises rem \<longrightarrow> ex = (if sigint rem (page st) then Return else Break))"
    using loop f3 err by (cases err) auto
qed

theorem short_page_ends_the_stream_witness:
  "\<not> interrupted \<lparr>page = 3, num_issues = 0, num_pulls = 0, list_issues = {},
                   interrupted = False, requested = [PullsPage 1, PullsPage 2], saved = []\<rparr> \<and>
   get_pulls_page (full_remote 3 100 37) 3 =
     Fetched (map (\<lambda>j. \<lparr>p_number = 3000 + int j, p_created_at = 150, p_body = None\<rparr>) [0..<37]) \<and>
   int (length (map (\<lambda>j. \<lparr>p_number = 3000 + int j, p_created_at = 150, p_body = None\<rparr>)
          [0..<37])) < (100 :: int) \<and>
   never_raises (full_remote 3 100 37) \<and>
   (\<exists>st'. pulls_loop
            \<lparr>per_page = 100, save_pull_pages = False, max_issue_number = - 1, start_date = 100,
             end_date = 200, linked_issues_regex = Regex ''OWNER'' ''REPO''\<rparr>
            (full_remote 3 100 37) (- 1)
            \<lparr>page = 3, num_issues = 0, num_pulls = 0, list_issues = {},
             interrupted = False, requested = [PullsPage 1, PullsPage 2], saved = []\<rparr>
          = Some (st', Break) \<and>
          pages_requested st' = [PullsPage 1, PullsPage 2, PullsPage 3])"
proof -
  let ?st = "\<lparr>page = 3, num_issues = 0, num_pulls = 0, list_issues = {},
             interrupted = False, requested = [PullsPage 1, PullsPage 2], saved = []\<rparr>"
  let ?cfg = "\<lparr>per_page = 100, save_pull_pages = False, max_issue_number = - 1, start_date = 100,
             end_date = 200, linked_issues_regex = Regex ''OWNER'' ''REPO''\<rparr>"
  let ?pulls = "map (\<lambda>j. \<lparr>p_number = 3000 + int j, p_created_at = 150, p_body = None\<rparr>) [0..<37]"
  have c: "\<not> interrupted ?st"
    "\<not> (max_issue_number ?cfg > 0 \<and> num_issues ?st \<ge> max_issue_number ?cfg)"
    "\<not> ((- 1 :: int) > 0 \<and> page ?st > - 1)"
    by simp_all
  have pg: "get_pulls_page (full_remote 3 100 37) 3 = Fetched ?pulls"
    by (simp add: full_remote_def)
  have len: "int (length ?pulls) < per_page ?cfg" by simp
  have nr: "never_raises (full_remote 3 100 37)"
    by (simp add: never_raises_def full_remote_def)
  have sg: "\<not> sigint (full_remote 3 100 37) 3" by (simp add: full_remote_def)
  from short_page_ends_the_stream[OF c, of "full_remote 3 100 37"] pg len nr sg
  have "\<exists>st'. pulls_loop ?cfg (full_remote 3 100 37) (- 1) ?st = Some (st', Break) \<and>
          pages_requested st' = pages_requested ?st @ [PullsPage 3]"
    by (auto simp: full_remote_def)
  moreover have "pages_requested ?st = [PullsPage 1, PullsPage 2]"
    by (simp add: pages_requested_def)
  ultimately show ?thesis using pg nr by simp
qed

text \<open>
  Claim C8. For a pull of a page that lies inside the window: when the fetch of its detail
  object comes back not ok, or the detail object is fetched and the fetch of its diff
  comes back not ok, the loop goes on with the remaining pulls of the page from a state
  in which only the log of requests has changed (nothing is saved for the pull, no
  counter moves); when both are fetched, the diff file and the pull file, which holds the
  detail object with the extracted list of linked issue numbers, are the next two files
  written.
\<close>

theorem failed_fetch_skips_the_pull:
  assumes "\<not> (p_created_at p < start_date cfg \<or> p_created_at p > end_date cfg)"
  shows "(get_pull rem (p_number p) = NotOk \<longrightarrow>
            process_pulls cfg rem (p # rest) st =
              process_pulls cfg rem rest
                (st\<lparr>requested := requested st @ [PullDetail (p_number p)]\<rparr>)) \<and>
         (\<forall>pull. get_pull rem (p_number p) = Fetched pull \<and>
                 get_diff rem (diff_url pull) = NotOk \<longrightarrow>
            process_pulls cfg rem (p # rest) st =
              process_pulls cfg rem rest
                (st\<lparr>requested := requested st @
                        [PullDetail (p_number p), Diff (diff_url pull)]\<rparr>)) \<and>
         (\<forall>pull diff. get_pull rem (p_number p) = Fetched pull \<and>
                 get_diff rem (diff_url pull) = Fetched diff \<longrightarrow>
            (\<exists>more. saved (fst (process_pulls cfg rem (p # rest) st)) =
                saved st @
                [DiffFile (p_number p) diff,
                 PullFile (p_number p) pull
                   (extract_linked_issue_numbers (p_body p) (linked_issues_regex cfg))] @ more))"
proof (intro conjI allI impI)
  assume "get_pull rem (p_number p) = NotOk"
  with assms show "process_pulls cfg rem (p # rest) st =
              process_pulls cfg rem rest
                (st\<lparr>requested := requested st @ [PullDetail (p_number p)]\<rparr>)"
    by (simp add: Let_def)
next
  fix pull
  assume "get_pull rem (p_number p) = Fetched pull \<and> get_diff rem (diff_url pull) = NotOk"
  with assms show "process_pulls cfg rem (p # rest) st =
              process_pulls cfg rem rest
                (st\<lparr>requested := requested st @
                        [PullDetail (p_number p), Diff (diff_url pull)]\<rparr>)"
    by (simp add: Let_def)
next
  fix pull diff
  assume a: "get_pull rem (p_number p) = Fetched pull \<and>
             get_diff rem (diff_url pull) = Fetched diff"
  let ?linked = "extract_linked_issue_numbers (p_body p) (linked_issues_regex cfg)"
  let ?files = "[DiffFile (p_number p) diff, PullFile (p_number p) pull ?linked]"
  let ?st3 = "st\<lparr>requested := requested st @ [PullDetail (p_number p), Diff (diff_url pull)],
                  saved := saved st @ ?files\<rparr>"
  obtain st4 err where sl: "save_linked_issues rem ?linked ?st3 = (st4, err)"
    by (cases "save_linked_issues rem ?linked ?st3") auto
  from save_linked_issues_frame[of rem ?linked ?st3] sl
  obtain m4 where m4: "saved st4 = saved st @ ?files @ m4" by auto
  let ?st5 = "st4\<lparr>num_pulls := num_pulls st4 + 1\<rparr>"
  from process_pulls_frame[of cfg rem rest ?st5] m4
  obtain m5 where m5: "saved (fst (process_pulls cfg rem rest ?st5)) = saved st @ ?files @ m5"
    by auto
  show "\<exists>more. saved (fst (process_pulls cfg rem (p # rest) st)) = saved st @ ?files @ more"
  proof (cases err)
    case (Some e)
    with assms a sl m4 show ?thesis by (simp add: Let_def)
  next
    case None
    show ?thesis
    proof (cases "max_issue_number cfg > 0 \<and> num_issues ?st5 \<ge> max_issue_number cfg")
      case True
      with None assms a sl m4 show ?thesis by (simp add: Let_def)
    next
      case False
      with None assms a sl m5 show ?thesis by (auto simp: Let_def)
    qed
  qed
qed

theorem failed_fetch_skips_the_pull_witness:
  "\<not> (p_created_at \<lparr>p_number = 7, p_created_at = 150, p_body = Some ''Fixes #12''\<rparr>
        < start_date \<lparr>per_page = 100, save_pull_pages = False, max_issue_number = - 1,
             start_date = 100, end_date = 200, linked_issues_regex = Regex ''OWNER'' ''REPO''\<rparr> \<or>
       p_created_at \<lparr>p_number = 7, p_created_at = 150, p_body = Some ''Fixes #12''\<rparr>
        > end_date \<lparr>per_page = 100, save_pull_pages = False, max_issue_number = - 1,
             start_date = 100, end_date = 200, linked_issues_regex = Regex ''OWNER'' ''REPO''\<rparr>) \<and>
   get_pull ((full_remote 1 2 2)\<lparr>get_pull := (\<lambda>n. if n = 7 then NotOk
        else Fetched \<lparr>diff_url = ''diff'', detail_fields = ''{}''\<rparr>)\<rparr>) 7 = NotOk \<and>
   process_pulls
     \<lparr>per_page = 100, save_pull_pages = False, max_issue_number = - 1,
      start_date = 100, end_date = 200, linked_issues_regex = Regex ''OWNER'' ''REPO''\<rparr>
     ((full_remote 1 2 2)\<lparr>get_pull := (\<lambda>n. if n = 7 then NotOk
        else Fetched \<lparr>diff_url = ''diff'', detail_fields = ''{}''\<rparr>)\<rparr>)
     [\<lparr>p_number = 7, p_created_at = 150, p_body = Some ''Fixes #12''\<rparr>,
      \<lparr>p_number = 8, p_created_at = 160, p_body = None\<rparr>]
     \<lparr>page = 1, num_issues = 0, num_pulls = 0, list_issues = {},
      interrupted = False, requested = [], saved = []\<rparr>
   = (\<lparr>page = 1, num_issues = 0, num_pulls = 1, list_issues = {}, interrupted = False,
       requested = [PullDetail 7, PullDetail 8, Diff ''diff''],
       saved = [DiffFile 8 [], PullFile 8 \<lparr>diff_url = ''diff'', detail_fields = ''{}''\<rparr> []]\<rparr>,
      None)"
proof -
  let ?cfg = "\<lparr>per_page = 100, save_pull_pages = False, max_issue_number = - 1,
      start_date = 100, end_date = 200, linked_issues_regex = Regex ''OWNER'' ''REPO''\<rparr>"
  let ?rem = "(full_remote 1 2 2)\<lparr>get_pull := (\<lambda>n. if n = 7 then NotOk
        else Fetched \<lparr>diff_url = ''diff'', detail_fields = ''{}''\<rparr>)\<rparr>"
  let ?p = "\<lparr>p_number = 7, p_created_at = 150, p_body = Some ''Fixes #12''\<rparr>"
  let ?q = "\<lparr>p_number = 8, p_created_at = 160, p_body = None\<rparr>"
  let ?st = "\<lparr>page = 1, num_issues = 0, num_pulls = 0, list_issues = {},
      interrupted = False, requested = [], saved = []\<rparr>"
  have w: "\<not> (p_created_at ?p < start_date ?cfg \<or> p_created_at ?p > end_date ?cfg)" by simp
  have g: "get_pull ?rem 7 = NotOk" by simp
  have rest: "process_pulls ?cfg ?rem [?q] (?st\<lparr>requested := requested ?st @ [PullDetail 7]\<rparr>)
    = (\<lparr>page = 1, num_issues = 0, num_pulls = 1, list_issues = {}, interrupted = False,
       requested = [PullDetail 7, PullDetail 8, Diff ''diff''],
       saved = [DiffFile 8 [], PullFile 8 \<lparr>diff_url = ''diff'', detail_fields = ''{}''\<rparr> []]\<rparr>,
      None)"
    by (simp add: Let_def full_remote_def extract_linked_issue_numbers_def)
  from failed_fetch_skips_the_pull[OF w, of ?rem "[?q]" ?st] g rest w
  show ?thesis by simp
qed

end
